theory Spec2Isabelle
  imports Main "HOL-Library.Sublist" "HOL-Library.AList"
begin

section \<open>Strings of the JavaScript runtime\<close>

text \<open>
  A JavaScript string is a sequence of UTF-16 code units. The model uses \<^typ>\<open>string\<close>:
  a \<^typ>\<open>char\<close> stands for a code unit below 256, so the model covers the documents,
  fragments and responses whose code units all lie in that range. In that range the
  white space of \<^verbatim>\<open>\s\<close> and of \<^verbatim>\<open>String.prototype.trim\<close> is TAB, LF, VT, FF, CR,
  SPACE and NBSP (U+00A0).
\<close>

definition DQ :: char where "DQ = CHR 0x22"
definition BS :: char where "BS = CHR 0x5C"
definition SQ :: char where "SQ = CHR 0x27"
definition BQ :: char where "BQ = CHR 0x60"

definition is_space :: "char \<Rightarrow> bool" where
  "is_space c \<longleftrightarrow> c \<in> set [CHR 0x09, CHR 0x0A, CHR 0x0B, CHR 0x0C, CHR 0x0D, CHR 0x20, CHR 0xA0]"

definition is_digit :: "char \<Rightarrow> bool" where
  "is_digit c \<longleftrightarrow> c \<in> set ''0123456789''"

text \<open>\<^verbatim>\<open>\w\<close> of a regular expression without the unicode flag: \<^verbatim>\<open>[A-Za-z0-9_]\<close>.\<close>

definition is_word_char :: "char \<Rightarrow> bool" where
  "is_word_char c \<longleftrightarrow>
     c \<in> set ''abcdefghijklmnopqrstuvwxyzABCDEFGHIJKLMNOPQRSTUVWXYZ0123456789_''"

text \<open>\<^verbatim>\<open>s.trim()\<close>.\<close>

definition trim :: "string \<Rightarrow> string" where
  "trim s = rev (dropWhile is_space (rev (dropWhile is_space s)))"

text \<open>The first position at which \<open>pat\<close> occurs in \<open>s\<close>, if any.\<close>

fun index_of :: "'a list \<Rightarrow> 'a list \<Rightarrow> nat option" where
  "index_of pat [] = (if pat = [] then Some 0 else None)"
| "index_of pat (x # xs) =
     (if prefix pat (x # xs) then Some 0 else map_option Suc (index_of pat xs))"

text \<open>\<^verbatim>\<open>s.indexOf(pat)\<close> and \<^verbatim>\<open>s.indexOf(pat, from)\<close>: the position, or \<open>-1\<close>.\<close>

definition indexOf :: "string \<Rightarrow> string \<Rightarrow> int" where
  "indexOf s pat = (case index_of pat s of None \<Rightarrow> -1 | Some k \<Rightarrow> int k)"

definition indexOf_from :: "string \<Rightarrow> string \<Rightarrow> int \<Rightarrow> int" where
  "indexOf_from s pat from =
     (let k = min (nat from) (length s)
      in (case index_of pat (drop k s) of None \<Rightarrow> -1 | Some i \<Rightarrow> int (k + i)))"

text \<open>\<^verbatim>\<open>s.slice(b, e)\<close> and \<^verbatim>\<open>s.slice(b)\<close>: a negative index counts from the end, and
  both ends are clamped to the string.\<close>

definition slice_pos :: "string \<Rightarrow> int \<Rightarrow> nat" where
  "slice_pos s i = (if i < 0 then nat (max (int (length s) + i) 0) else min (nat i) (length s))"

definition slice :: "string \<Rightarrow> int \<Rightarrow> int \<Rightarrow> string" where
  "slice s b e = take (slice_pos s e - slice_pos s b) (drop (slice_pos s b) s)"

definition slice_from :: "string \<Rightarrow> int \<Rightarrow> string" where
  "slice_from s b = drop (slice_pos s b) s"

text \<open>Template literals print a non-negative integer in decimal; \<^verbatim>\<open>parseInt(ds, 10)\<close>
  reads a string of decimal digits (the model is exact below \<open>2^53\<close>, where every integer
  is a JavaScript number).\<close>

fun show_nat :: "nat \<Rightarrow> string" where
  "show_nat n =
     (if n < 10 then [''0123456789'' ! n]
      else show_nat (n div 10) @ [''0123456789'' ! (n mod 10)])"

declare show_nat.simps [simp del]

definition digit_val :: "char \<Rightarrow> nat" where
  "digit_val c = of_char c - 48"

definition parseInt :: "string \<Rightarrow> nat" where
  "parseInt ds = foldl (\<lambda>n c. 10 * n + digit_val c) 0 ds"

section \<open>Regular expressions\<close>

text \<open>
  A matcher is one regular expression of the source, tried at the head of the text that
  is left: it returns the capture groups and the length of the match. \<open>gmatch\<close> is the
  loop of \<^verbatim>\<open>regex.exec\<close> with the \<^verbatim>\<open>g\<close> flag (and of \<^verbatim>\<open>replace\<close> with such a regex):
  the matches from left to right, none overlapping, each with the text since the end of
  the match before it (\<^verbatim>\<open>s.slice(lastIndex, match.index)\<close>), the whole match and its
  groups; and the text after the last match. No expression of the source matches the
  empty string.
\<close>

type_synonym 'g matcher = "string \<Rightarrow> ('g \<times> nat) option"

fun gmatch :: "'g matcher \<Rightarrow> string \<Rightarrow> string \<Rightarrow> (string \<times> string \<times> 'g) list \<times> string" where
  "gmatch m pre [] = ([], pre)"
| "gmatch m pre (c # cs) =
     (case m (c # cs) of
        None \<Rightarrow> gmatch m (pre @ [c]) cs
      | Some (g, n) \<Rightarrow>
          (case gmatch m [] (drop (n - 1) cs) of
             (segs, rest) \<Rightarrow> ((pre, take n (c # cs), g) # segs, rest)))"

text \<open>\<^verbatim>\<open>s.match(regex)\<close> without the \<^verbatim>\<open>g\<close> flag: the first match, as its groups and the
  matched text.\<close>

fun first_match :: "'g matcher \<Rightarrow> string \<Rightarrow> ('g \<times> string) option" where
  "first_match m [] = None"
| "first_match m (c # cs) =
     (case m (c # cs) of
        None \<Rightarrow> first_match m cs
      | Some (g, n) \<Rightarrow> Some (g, take n (c # cs)))"

text \<open>\<^verbatim>\<open>/<w:p[\s>][\s\S]*?<\/w:p>/\<close>: the lazy body ends at the first closing tag.\<close>

definition m_para :: "unit matcher" where
  "m_para s =
     (if prefix ''<w:p'' s then
        (case drop 4 s of
           [] \<Rightarrow> None
         | c # r \<Rightarrow>
             if is_space c \<or> c = CHR ''>'' then
               (case index_of ''</w:p>'' r of
                  None \<Rightarrow> None
                | Some k \<Rightarrow> Some ((), 5 + k + 6))
             else None)
      else None)"

text \<open>\<^verbatim>\<open>/<w:r\b[^>]*>([\s\S]*?)<\/w:r>/\<close>: after \<^verbatim>\<open><w:r\<close> no word character may follow;
  the opening tag runs to the first \<^verbatim>\<open>>\<close>, the inner text (group 1) to the first closing
  tag.\<close>

definition m_run :: "string matcher" where
  "m_run s =
     (if prefix ''<w:r'' s then
        (let r = drop 4 s in
         (case r of
            [] \<Rightarrow> None
          | c # _ \<Rightarrow>
              if is_word_char c then None
              else
                (case index_of ''>'' r of
                   None \<Rightarrow> None
                 | Some j \<Rightarrow>
                     (case index_of ''</w:r>'' (drop (j + 1) r) of
                        None \<Rightarrow> None
                      | Some k \<Rightarrow> Some (take k (drop (j + 1) r), 4 + j + 1 + k + 6)))))
      else None)"

text \<open>\<^verbatim>\<open>/<w:t(?:\s[^>]*)?>([^<]*)<\/w:t>/\<close>: the opening tag is \<^verbatim>\<open><w:t>\<close>, or \<^verbatim>\<open><w:t\<close>,
  a white space and everything to the first \<^verbatim>\<open>>\<close>; the text (group 1) runs to the first
  \<^verbatim>\<open><\<close>, where the closing tag must stand.\<close>

definition m_text_body :: "nat \<Rightarrow> string \<Rightarrow> (string \<times> nat) option" where
  "m_text_body openlen body =
     (let text = takeWhile (\<lambda>c. c \<noteq> CHR ''<'') body in
      if prefix ''</w:t>'' (dropWhile (\<lambda>c. c \<noteq> CHR ''<'') body)
      then Some (text, openlen + length text + 6)
      else None)"

definition m_text :: "string matcher" where
  "m_text s =
     (if prefix ''<w:t'' s then
        (case drop 4 s of
           [] \<Rightarrow> None
         | c # r \<Rightarrow>
             if c = CHR ''>'' then m_text_body 5 r
             else if is_space c then
               (case index_of ''>'' r of
                  None \<Rightarrow> None
                | Some j \<Rightarrow> m_text_body (5 + j + 1) (drop (j + 1) r))
             else None)
      else None)"

text \<open>\<^verbatim>\<open>/\[RUN:(\d+)\]([\s\S]*?)\[\/RUN:\1\]/\<close>: the digits (group 1), the lazy body
  (group 2) up to the first closing marker that repeats the same digits.\<close>

definition m_runpair :: "(string \<times> string) matcher" where
  "m_runpair s =
     (if prefix ''[RUN:'' s then
        (let ds = takeWhile is_digit (drop 5 s) in
         if ds = [] then None
         else
           (case dropWhile is_digit (drop 5 s) of
              [] \<Rightarrow> None
            | c # body \<Rightarrow>
                if c = CHR '']'' then
                  (case index_of (''[/RUN:'' @ ds @ '']'') body of
                     None \<Rightarrow> None
                   | Some k \<Rightarrow>
                       Some ((ds, take k body), 5 + length ds + 1 + k + (6 + length ds + 1)))
                else None))
      else None)"

text \<open>\<^verbatim>\<open>/\[TAG:(\d+)\]/\<close>.\<close>

definition m_tag :: "string matcher" where
  "m_tag s =
     (if prefix ''[TAG:'' s then
        (let ds = takeWhile is_digit (drop 5 s) in
         if ds = [] then None
         else
           (case dropWhile is_digit (drop 5 s) of
              [] \<Rightarrow> None
            | c # _ \<Rightarrow> if c = CHR '']'' then Some (ds, 5 + length ds + 1) else None))
      else None)"

section \<open>Segmenting and extracting (xml-chunker.ts)\<close>

record ParagraphChunk =
  index :: nat
  simplifiedText :: string
  hasText :: bool

text \<open>\<^verbatim>\<open>IdTagMap = Map<number, string>\<close>, in insertion order; \<^verbatim>\<open>set\<close> is
  \<^const>\<open>AList.update\<close> and \<^verbatim>\<open>get\<close> is \<^const>\<open>map_of\<close>.\<close>

type_synonym IdTagMap = "(nat \<times> string) list"

definition chunkParagraphs :: "string \<Rightarrow> string list" where
  "chunkParagraphs documentXml = map (\<lambda>(pre, whole, g). whole) (fst (gmatch m_para [] documentXml))"

definition extractTextContent :: "string \<Rightarrow> string" where
  "extractTextContent paragraphXml =
     concat (map (\<lambda>(pre, whole, text). text) (fst (gmatch m_text [] paragraphXml)))"

subsection \<open>\<^verbatim>\<open>JSON.stringify\<close> of the run template\<close>

definition hex_digit :: "nat \<Rightarrow> char" where
  "hex_digit n = ''0123456789abcdef'' ! n"

definition quote_char :: "char \<Rightarrow> string" where
  "quote_char c =
     (if c = DQ then [BS, DQ]
      else if c = BS then [BS, BS]
      else if c = CHR 0x08 then [BS, CHR ''b'']
      else if c = CHR 0x0C then [BS, CHR ''f'']
      else if c = CHR 0x0A then [BS, CHR ''n'']
      else if c = CHR 0x0D then [BS, CHR ''r'']
      else if c = CHR 0x09 then [BS, CHR ''t'']
      else if (of_char c :: nat) < 32 then
        [BS, CHR ''u'', CHR ''0'', CHR ''0'',
         hex_digit ((of_char c :: nat) div 16), hex_digit ((of_char c :: nat) mod 16)]
      else [c])"

definition json_quote :: "string \<Rightarrow> string" where
  "json_quote s = [DQ] @ concat (map quote_char s) @ [DQ]"

text \<open>\<^verbatim>\<open>JSON.stringify({ before, after, tTemplate })\<close> of three strings.\<close>

definition stringify_template :: "string \<Rightarrow> string \<Rightarrow> string \<Rightarrow> string" where
  \<open>stringify_template before after tTemplate =
     ''{"before":'' @ json_quote before @ '',"after":'' @ json_quote after @
     '',"tTemplate":'' @ json_quote tTemplate @ ''}''\<close>

subsection \<open>\<^verbatim>\<open>replaceTagsWithIds\<close>\<close>

text \<open>
  The loop appends markers to \<^verbatim>\<open>simplified\<close>; the model keeps them as a list of pieces and
  prints the list when the chunk is built. \<open>alloc\<close> is \<^verbatim>\<open>const id = nextId++;
  idTagMap.set(id, fragment)\<close>.
\<close>

datatype piece = TagPiece nat | RunPiece nat string

fun render_piece :: "piece \<Rightarrow> string" where
  "render_piece (TagPiece n) = ''[TAG:'' @ show_nat n @ '']''"
| "render_piece (RunPiece n text) =
     ''[RUN:'' @ show_nat n @ '']'' @ text @ ''[/RUN:'' @ show_nat n @ '']''"

definition render :: "piece list \<Rightarrow> string" where
  "render ps = concat (map render_piece ps)"

record xstate =
  nextId :: nat
  idTagMap :: IdTagMap

definition alloc :: "xstate \<Rightarrow> string \<Rightarrow> nat \<times> xstate" where
  "alloc st fragment =
     (nextId st, \<lparr>nextId = nextId st + 1, idTagMap = AList.update (nextId st) fragment (idTagMap st)\<rparr>)"

text \<open>A span between runs or after the last run: stored as an opaque fragment unless it
  is empty or white space only.\<close>

definition opaque_span :: "xstate \<times> piece list \<Rightarrow> string \<Rightarrow> xstate \<times> piece list" where
  "opaque_span sp span =
     (case sp of (st, ps) \<Rightarrow>
        if span \<noteq> [] \<and> trim span \<noteq> [] then
          (case alloc st span of (n, st') \<Rightarrow> (st', ps @ [TagPiece n]))
        else (st, ps))"

text \<open>The template of the text element: the text is cut out by position.\<close>

definition tElementTemplate :: "string \<Rightarrow> string \<Rightarrow> string" where
  "tElementTemplate tFull text =
     (let closingBracket = indexOf tFull ''>'' + 1;
          textStart = indexOf_from tFull text closingBracket
      in slice tFull 0 textStart @ ''{{TEXT}}'' @ slice_from tFull (textStart + int (length text)))"

definition text_run :: "xstate \<times> piece list \<Rightarrow> string \<Rightarrow> string \<Rightarrow> string \<Rightarrow> xstate \<times> piece list" where
  "text_run sp run text tFull =
     (case sp of (st, ps) \<Rightarrow>
        let beforeText = slice run 0 (indexOf run tFull);
            afterText = slice_from run (indexOf run tFull + int (length tFull))
        in (case alloc st (stringify_template beforeText afterText (tElementTemplate tFull text)) of
             (n, st') \<Rightarrow> (st', ps @ [RunPiece n text])))"

text \<open>One iteration of the loop over the runs of a paragraph: \<open>between\<close> is the text since
  the run before, \<open>run\<close> is \<^verbatim>\<open>runMatch[0]\<close> and \<open>runInner\<close> is \<^verbatim>\<open>runMatch[1]\<close>.\<close>

definition run_step :: "xstate \<times> piece list \<Rightarrow> string \<times> string \<times> string \<Rightarrow> xstate \<times> piece list" where
  "run_step sp seg =
     (case seg of (between, run, runInner) \<Rightarrow>
        let sp1 = opaque_span sp between
        in (case first_match m_text runInner of
             Some (text, tFull) \<Rightarrow> text_run sp1 run text tFull
           | None \<Rightarrow>
               (case sp1 of (st, ps) \<Rightarrow>
                  (case alloc st run of (n, st') \<Rightarrow> (st', ps @ [TagPiece n])))))"

definition simplify_paragraph :: "xstate \<Rightarrow> string \<Rightarrow> xstate \<times> piece list" where
  "simplify_paragraph st para =
     (case gmatch m_run [] para of
        (segs, trailing) \<Rightarrow> opaque_span (foldl run_step (st, []) segs) trailing)"

fun replace_loop :: "nat \<Rightarrow> string list \<Rightarrow> xstate \<Rightarrow> ParagraphChunk list \<times> xstate" where
  "replace_loop i [] st = ([], st)"
| "replace_loop i (para # paragraphs) st =
     (if trim (extractTextContent para) = [] then
        (case replace_loop (i + 1) paragraphs st of
           (chunks, st') \<Rightarrow> (\<lparr>index = i, simplifiedText = [], hasText = False\<rparr> # chunks, st'))
      else
        (case simplify_paragraph st para of
           (st1, ps) \<Rightarrow>
             (case replace_loop (i + 1) paragraphs st1 of
                (chunks, st') \<Rightarrow>
                  (\<lparr>index = i, simplifiedText = render ps, hasText = True\<rparr> # chunks, st'))))"

definition replaceTagsWithIds :: "string list \<Rightarrow> ParagraphChunk list \<times> IdTagMap" where
  "replaceTagsWithIds paragraphs =
     (case replace_loop 0 paragraphs \<lparr>nextId = 1, idTagMap = []\<rparr> of
        (chunks, st) \<Rightarrow> (chunks, idTagMap st))"

section \<open>Restoring and reconstructing (xml-chunker.ts)\<close>

subsection \<open>\<^verbatim>\<open>JSON.parse\<close>\<close>

text \<open>
  The JSON grammar of ECMA-404, as \<^verbatim>\<open>JSON.parse\<close> reads it. A number keeps its literal.
  The parser is a recursive descent with fuel; \<open>JSON_parse\<close> gives it more fuel than the
  text has characters to nest or to list, so running out of fuel is not a case of its
  own. \<open>None\<close> is the \<^verbatim>\<open>SyntaxError\<close>. An escape \<^verbatim>\<open>\uXXXX\<close> above \<open>00FF\<close> names a
  code unit outside the strings of this model and is read modulo 256.
\<close>

datatype json =
    JNull
  | JBool bool
  | JNumber string
  | JString string
  | JArray "json list"
  | JObject "(string \<times> json) list"

definition json_ws :: "char \<Rightarrow> bool" where
  "json_ws c \<longleftrightarrow> c \<in> set [CHR 0x20, CHR 0x09, CHR 0x0A, CHR 0x0D]"

definition skip_ws :: "string \<Rightarrow> string" where
  "skip_ws s = dropWhile json_ws s"

definition is_hex :: "char \<Rightarrow> bool" where
  "is_hex c \<longleftrightarrow> c \<in> set ''0123456789abcdefABCDEF''"

definition hex_val :: "char \<Rightarrow> nat" where
  "hex_val c =
     (if is_digit c then of_char c - 48
      else if c \<in> set ''abcdef'' then of_char c - 87
      else of_char c - 55)"

definition unescape :: "char \<Rightarrow> char option" where
  "unescape e =
     (if e = DQ then Some DQ
      else if e = BS then Some BS
      else if e = CHR ''/'' then Some (CHR ''/'')
      else if e = CHR ''b'' then Some (CHR 0x08)
      else if e = CHR ''f'' then Some (CHR 0x0C)
      else if e = CHR ''n'' then Some (CHR 0x0A)
      else if e = CHR ''r'' then Some (CHR 0x0D)
      else if e = CHR ''t'' then Some (CHR 0x09)
      else None)"

text \<open>The characters of a string after its opening quote, up to the closing quote.\<close>

fun parse_string_body :: "string \<Rightarrow> (string \<times> string) option" where
  "parse_string_body [] = None"
| "parse_string_body (c # cs) =
     (if c = DQ then Some ([], cs)
      else if c = BS then
        (case cs of
           [] \<Rightarrow> None
         | e # cs' \<Rightarrow>
             if e = CHR ''u'' then
               (if 4 \<le> length cs' \<and> list_all is_hex (take 4 cs') then
                  map_option (\<lambda>(s, r). (char_of (foldl (\<lambda>n h. 16 * n + hex_val h) 0 (take 4 cs')) # s, r))
                    (parse_string_body (drop 4 cs'))
                else None)
             else
               (case unescape e of
                  None \<Rightarrow> None
                | Some ch \<Rightarrow> map_option (\<lambda>(s, r). (ch # s, r)) (parse_string_body cs')))
      else if (of_char c :: nat) < 32 then None
      else map_option (\<lambda>(s, r). (c # s, r)) (parse_string_body cs))"

text \<open>\<^verbatim>\<open>-?(0|[1-9][0-9]*)(\.[0-9]+)?([eE][+-]?[0-9]+)?\<close>: the literal and the rest.\<close>

definition parse_digits1 :: "string \<Rightarrow> (string \<times> string) option" where
  "parse_digits1 s =
     (if takeWhile is_digit s = [] then None
      else Some (takeWhile is_digit s, dropWhile is_digit s))"

definition parse_int_part :: "string \<Rightarrow> (string \<times> string) option" where
  "parse_int_part s =
     (case s of
        [] \<Rightarrow> None
      | c # r \<Rightarrow> if c = CHR ''0'' then Some (''0'', r) else parse_digits1 s)"

definition parse_frac :: "string \<Rightarrow> (string \<times> string) option" where
  "parse_frac s =
     (case s of
        [] \<Rightarrow> Some ([], s)
      | c # r \<Rightarrow>
          if c = CHR ''.'' then map_option (\<lambda>(ds, r'). (c # ds, r')) (parse_digits1 r)
          else Some ([], s))"

definition parse_exp :: "string \<Rightarrow> (string \<times> string) option" where
  "parse_exp s =
     (case s of
        [] \<Rightarrow> Some ([], s)
      | c # r \<Rightarrow>
          if c = CHR ''e'' \<or> c = CHR ''E'' then
            (case r of
               [] \<Rightarrow> None
             | sg # r' \<Rightarrow>
                 if sg = CHR ''+'' \<or> sg = CHR ''-'' then
                   map_option (\<lambda>(ds, r''). (c # sg # ds, r'')) (parse_digits1 r')
                 else map_option (\<lambda>(ds, r''). (c # ds, r'')) (parse_digits1 r))
          else Some ([], s))"

definition parse_number :: "string \<Rightarrow> (string \<times> string) option" where
  "parse_number s =
     (let (sgn, r0) = (case s of [] \<Rightarrow> ([], s) | c # r \<Rightarrow> if c = CHR ''-'' then ([c], r) else ([], s))
      in case parse_int_part r0 of
           None \<Rightarrow> None
         | Some (ip, r1) \<Rightarrow>
             (case parse_frac r1 of
                None \<Rightarrow> None
              | Some (fp, r2) \<Rightarrow>
                  (case parse_exp r2 of
                     None \<Rightarrow> None
                   | Some (ep, r3) \<Rightarrow> Some (sgn @ ip @ fp @ ep, r3))))"

fun parse_value :: "nat \<Rightarrow> string \<Rightarrow> (json \<times> string) option"
  and parse_elements :: "nat \<Rightarrow> string \<Rightarrow> (json list \<times> string) option"
  and parse_members :: "nat \<Rightarrow> string \<Rightarrow> ((string \<times> json) list \<times> string) option" where
  "parse_value 0 s = None"
| "parse_value (Suc f) s =
     (case skip_ws s of
        [] \<Rightarrow> None
      | c # cs \<Rightarrow>
          if c = CHR ''{'' then
            (case skip_ws cs of
               [] \<Rightarrow> None
             | d # r \<Rightarrow>
                 if d = CHR ''}'' then Some (JObject [], r)
                 else map_option (\<lambda>(kvs, r'). (JObject kvs, r')) (parse_members f cs))
          else if c = CHR ''['' then
            (case skip_ws cs of
               [] \<Rightarrow> None
             | d # r \<Rightarrow>
                 if d = CHR '']'' then Some (JArray [], r)
                 else map_option (\<lambda>(vs, r'). (JArray vs, r')) (parse_elements f cs))
          else if c = DQ then map_option (\<lambda>(t, r). (JString t, r)) (parse_string_body cs)
          else if prefix ''true'' (c # cs) then Some (JBool True, drop 4 (c # cs))
          else if prefix ''false'' (c # cs) then Some (JBool False, drop 5 (c # cs))
          else if prefix ''null'' (c # cs) then Some (JNull, drop 4 (c # cs))
          else map_option (\<lambda>(lit, r). (JNumber lit, r)) (parse_number (c # cs)))"
| "parse_elements 0 s = None"
| "parse_elements (Suc f) s =
     (case parse_value f s of
        None \<Rightarrow> None
      | Some (v, r) \<Rightarrow>
          (case skip_ws r of
             [] \<Rightarrow> None
           | d # r' \<Rightarrow>
               if d = CHR '','' then map_option (\<lambda>(vs, r''). (v # vs, r'')) (parse_elements f r')
               else if d = CHR '']'' then Some ([v], r')
               else None))"
| "parse_members 0 s = None"
| "parse_members (Suc f) s =
     (case skip_ws s of
        [] \<Rightarrow> None
      | q # r \<Rightarrow>
          if q = DQ then
            (case parse_string_body r of
               None \<Rightarrow> None
             | Some (k, r1) \<Rightarrow>
                 (case skip_ws r1 of
                    [] \<Rightarrow> None
                  | col # r2 \<Rightarrow>
                      if col = CHR '':'' then
                        (case parse_value f r2 of
                           None \<Rightarrow> None
                         | Some (v, r3) \<Rightarrow>
                             (case skip_ws r3 of
                                [] \<Rightarrow> None
                              | d # r4 \<Rightarrow>
                                  if d = CHR '','' then
                                    map_option (\<lambda>(kvs, r5). ((k, v) # kvs, r5)) (parse_members f r4)
                                  else if d = CHR ''}'' then Some ([(k, v)], r4)
                                  else None))
                      else None))
          else None)"

definition JSON_parse :: "string \<Rightarrow> json option" where
  "JSON_parse s =
     (case parse_value (2 * length s + 2) s of
        None \<Rightarrow> None
      | Some (v, r) \<Rightarrow> if skip_ws r = [] then Some v else None)"

text \<open>
  Reading a property of a parsed value (\<open>None\<close> is \<^verbatim>\<open>undefined\<close>; of a repeated key the last
  entry counts), and the string a value becomes under \<^verbatim>\<open>+\<close> with a string (\<open>None\<close> is
  the \<^verbatim>\<open>TypeError\<close> of an object that cannot be converted: an own property \<^verbatim>\<open>toString\<close> of
  a parsed object is never a function and hides \<^verbatim>\<open>Object.prototype.toString\<close>, and
  \<^verbatim>\<open>valueOf\<close> gives the object itself). An array is joined, \<^verbatim>\<open>null\<close> elements as empty
  strings. The printing of a number is that of IEEE doubles, which the model does not
  compute: the literal stands for it (exact for an integer literal below \<open>2^53\<close> other
  than \<^verbatim>\<open>-0\<close>). \<^verbatim>\<open>replaceTagsWithIds\<close> stores strings in all three fields.
\<close>

definition get_prop :: "json \<Rightarrow> string \<Rightarrow> json option" where
  "get_prop v k = (case v of JObject kvs \<Rightarrow> map_of (rev kvs) k | _ \<Rightarrow> None)"

fun js_to_string :: "json \<Rightarrow> string option"
  and js_join :: "json list \<Rightarrow> string option" where
  "js_to_string JNull = Some ''null''"
| "js_to_string (JBool b) = Some (if b then ''true'' else ''false'')"
| "js_to_string (JNumber lit) = Some lit"
| "js_to_string (JString s) = Some s"
| "js_to_string (JArray vs) = js_join vs"
| "js_to_string (JObject kvs) =
     (if list_ex (\<lambda>kv. fst kv = ''toString'') kvs then None else Some ''[object Object]'')"
| "js_join [] = Some []"
| "js_join (v # vs) =
     (case (case v of JNull \<Rightarrow> Some [] | _ \<Rightarrow> js_to_string v) of
        None \<Rightarrow> None
      | Some x \<Rightarrow>
          if vs = [] then Some x
          else (case js_join vs of None \<Rightarrow> None | Some r \<Rightarrow> Some (x @ '','' @ r)))"

definition to_string_opt :: "json option \<Rightarrow> string option" where
  "to_string_opt v = (case v of None \<Rightarrow> Some ''undefined'' | Some j \<Rightarrow> js_to_string j)"

subsection \<open>\<^verbatim>\<open>String.prototype.replace\<close> with a string pattern\<close>

text \<open>
  \<^verbatim>\<open>s.replace(pat, repl)\<close> with two strings replaces the first occurrence of \<open>pat\<close>, and
  reads \<open>repl\<close> as a replacement template (GetSubstitution of ECMA-262): \<^verbatim>\<open>$$\<close> is a
  dollar, \<^verbatim>\<open>$&\<close> the matched text, \<^verbatim>\<open>$`\<close> the text before the match, \<^verbatim>\<open>$'\<close> the text
  after it; a string pattern has no capture groups, so every other \<^verbatim>\<open>$\<close> stands for itself.
\<close>

fun get_substitution :: "string \<Rightarrow> string \<Rightarrow> nat \<Rightarrow> string \<Rightarrow> string" where
  "get_substitution matched str pos [] = []"
| "get_substitution matched str pos [c] = [c]"
| "get_substitution matched str pos (c # d # r) =
     (if c = CHR ''$'' then
        (if d = CHR ''$'' then CHR ''$'' # get_substitution matched str pos r
         else if d = CHR ''&'' then matched @ get_substitution matched str pos r
         else if d = BQ then take pos str @ get_substitution matched str pos r
         else if d = SQ then drop (pos + length matched) str @ get_substitution matched str pos r
         else c # get_substitution matched str pos (d # r))
      else c # get_substitution matched str pos (d # r))"

definition string_replace :: "string \<Rightarrow> string \<Rightarrow> string \<Rightarrow> string" where
  "string_replace s pat repl =
     (case index_of pat s of
        None \<Rightarrow> s
      | Some pos \<Rightarrow> take pos s @ get_substitution pat s pos repl @ drop (pos + length pat) s)"

subsection \<open>\<^verbatim>\<open>escapeXml\<close>\<close>

text \<open>\<^verbatim>\<open>text.replace(/c/g, r)\<close> for one character \<open>c\<close> and a replacement without \<^verbatim>\<open>$\<close>.\<close>

definition replace_char :: "char \<Rightarrow> string \<Rightarrow> string \<Rightarrow> string" where
  "replace_char c r s = concat (map (\<lambda>x. if x = c then r else [x]) s)"

definition escapeXml :: "string \<Rightarrow> string" where
  "escapeXml text =
     replace_char SQ ''&apos;''
       (replace_char DQ ''&quot;''
         (replace_char (CHR ''>'') ''&gt;''
           (replace_char (CHR ''<'') ''&lt;''
             (replace_char (CHR ''&'') ''&amp;'' text))))"

subsection \<open>\<^verbatim>\<open>restoreParagraphXml\<close>\<close>

text \<open>What the code throws.\<close>

datatype js_error = SyntaxError | TypeError | SessionError | Aborted | Malformed string

text \<open>
  \<^verbatim>\<open>s.replace(regex, callback)\<close>: every match is replaced by what the callback returns for
  it; the callback gets the number of matches before this one (the counter that
  \<^verbatim>\<open>reconstructXml\<close> keeps in \<^verbatim>\<open>paragraphIndex\<close>), the match and its groups. An exception
  of the callback ends the call.
\<close>

fun replace_segs ::
  "nat \<Rightarrow> (nat \<Rightarrow> string \<Rightarrow> 'g \<Rightarrow> js_error + string) \<Rightarrow> (string \<times> string \<times> 'g) list \<Rightarrow> js_error + string" where
  "replace_segs k cb [] = Inr []"
| "replace_segs k cb ((pre, whole, g) # segs) =
     (case cb k whole g of
        Inl e \<Rightarrow> Inl e
      | Inr r \<Rightarrow>
          (case replace_segs (k + 1) cb segs of
             Inl e \<Rightarrow> Inl e
           | Inr out \<Rightarrow> Inr (pre @ r @ out)))"

definition replace_all ::
  "'g matcher \<Rightarrow> (nat \<Rightarrow> string \<Rightarrow> 'g \<Rightarrow> js_error + string) \<Rightarrow> string \<Rightarrow> js_error + string" where
  "replace_all m cb s =
     (case gmatch m [] s of
        (segs, rest) \<Rightarrow>
          (case replace_segs 0 cb segs of Inl e \<Rightarrow> Inl e | Inr out \<Rightarrow> Inr (out @ rest)))"

text \<open>The body of the \<^verbatim>\<open>try\<close> block: \<^verbatim>\<open>JSON.parse\<close> throws a \<^verbatim>\<open>SyntaxError\<close>, destructuring
  \<^verbatim>\<open>null\<close> throws a \<^verbatim>\<open>TypeError\<close>, and so do \<^verbatim>\<open>tTemplate.replace\<close> when \<^verbatim>\<open>tTemplate\<close>
  is not a string and \<^verbatim>\<open>before + tElement + after\<close> when \<^verbatim>\<open>before\<close> or \<^verbatim>\<open>after\<close> cannot be
  converted to a string.\<close>

definition restore_run :: "string \<Rightarrow> string \<Rightarrow> js_error + string" where
  "restore_run stored translatedText =
     (case JSON_parse stored of
        None \<Rightarrow> Inl SyntaxError
      | Some parsed \<Rightarrow>
          if parsed = JNull then Inl TypeError
          else
            (case get_prop parsed ''tTemplate'' of
               Some (JString tTemplate) \<Rightarrow>
                 (let tElement = string_replace tTemplate ''{{TEXT}}'' (escapeXml translatedText)
                  in case to_string_opt (get_prop parsed ''before'') of
                       None \<Rightarrow> Inl TypeError
                     | Some before \<Rightarrow>
                         (case to_string_opt (get_prop parsed ''after'') of
                            None \<Rightarrow> Inl TypeError
                          | Some after \<Rightarrow> Inr (before @ tElement @ after)))
             | _ \<Rightarrow> Inl TypeError))"

text \<open>The callbacks of the two passes. \<^verbatim>\<open>!stored\<close> holds for a missing entry and for an
  empty string; \<^verbatim>\<open>catch\<close> catches everything the \<^verbatim>\<open>try\<close> block throws.\<close>

definition run_callback :: "IdTagMap \<Rightarrow> string \<Rightarrow> string \<Rightarrow> js_error + string" where
  "run_callback idMap idStr translatedText =
     (case map_of idMap (parseInt idStr) of
        None \<Rightarrow> Inr translatedText
      | Some stored \<Rightarrow>
          if stored = [] then Inr translatedText
          else
            (case restore_run stored translatedText of
               Inl e \<Rightarrow> Inr translatedText
             | Inr xml \<Rightarrow> Inr xml))"

definition tag_callback :: "IdTagMap \<Rightarrow> string \<Rightarrow> js_error + string" where
  "tag_callback idMap idStr =
     (case map_of idMap (parseInt idStr) of None \<Rightarrow> Inr [] | Some stored \<Rightarrow> Inr stored)"

definition restoreParagraphXml :: "string \<Rightarrow> IdTagMap \<Rightarrow> js_error + string" where
  "restoreParagraphXml simplified idMap =
     (case replace_all m_runpair (\<lambda>k whole g. run_callback idMap (fst g) (snd g)) simplified of
        Inl e \<Rightarrow> Inl e
      | Inr xml \<Rightarrow> replace_all m_tag (\<lambda>k whole idStr. tag_callback idMap idStr) xml)"

subsection \<open>\<^verbatim>\<open>reconstructXml\<close>\<close>

text \<open>\<^verbatim>\<open>translatedByIndex\<close>: the simplified text of every chunk with \<^verbatim>\<open>hasText\<close>, by index;
  a later chunk with the same index replaces an earlier one.\<close>

definition translatedByIndex :: "ParagraphChunk list \<Rightarrow> (nat \<times> string) list" where
  "translatedByIndex translatedChunks =
     foldl (\<lambda>m chunk. if hasText chunk then AList.update (index chunk) (simplifiedText chunk) m else m)
       [] translatedChunks"

definition reconstructXml :: "string \<Rightarrow> ParagraphChunk list \<Rightarrow> IdTagMap \<Rightarrow> js_error + string" where
  "reconstructXml originalDocumentXml translatedChunks idMap =
     replace_all m_para
       (\<lambda>paragraphIndex originalParagraph g.
          case map_of (translatedByIndex translatedChunks) paragraphIndex of
            None \<Rightarrow> Inr originalParagraph
          | Some translated \<Rightarrow> restoreParagraphXml translated idMap)
       originalDocumentXml"

subsection \<open>The markers of a simplified text\<close>

text \<open>
  The pieces that \<^verbatim>\<open>replaceTagsWithIds\<close> writes for each paragraph (none for a paragraph
  without text), in the order of the paragraphs: the simplified text of a chunk is the
  printed list of its pieces. \<open>referenced_ids\<close> are the IDs of the markers that the two
  regular expressions of \<^verbatim>\<open>restoreParagraphXml\<close> find in a text.
\<close>

fun piece_id :: "piece \<Rightarrow> nat" where
  "piece_id (TagPiece n) = n"
| "piece_id (RunPiece n text) = n"

fun pieces_loop :: "string list \<Rightarrow> xstate \<Rightarrow> piece list list" where
  "pieces_loop [] st = []"
| "pieces_loop (para # paragraphs) st =
     (if trim (extractTextContent para) = [] then [] # pieces_loop paragraphs st
      else (case simplify_paragraph st para of (st1, ps) \<Rightarrow> ps # pieces_loop paragraphs st1))"

definition paragraph_pieces :: "string list \<Rightarrow> piece list list" where
  "paragraph_pieces paragraphs = pieces_loop paragraphs \<lparr>nextId = 1, idTagMap = []\<rparr>"

definition referenced_ids :: "string \<Rightarrow> nat list" where
  "referenced_ids s =
     map (\<lambda>(pre, whole, g). parseInt (fst g)) (fst (gmatch m_runpair [] s)) @
     map (\<lambda>(pre, whole, idStr). parseInt idStr) (fst (gmatch m_tag [] s))"

text \<open>The invariant of the extractor's loop: the keys of the map are \<open>1, 2, ...\<close> up to the
  next ID, in the order of insertion, and the pieces written since the ID \<open>base\<close> carry
  the IDs from \<open>base\<close> on, one each, in order.\<close>

definition ids_invariant :: "nat \<Rightarrow> xstate \<times> piece list \<Rightarrow> bool" where
  "ids_invariant base sp \<longleftrightarrow>
     map fst (idTagMap (fst sp)) = [1..<nextId (fst sp)] \<and> 1 \<le> base \<and>
     base \<le> nextId (fst sp) \<and> map piece_id (snd sp) = [base..<nextId (fst sp)]"

section \<open>Batched translation (translator.ts)\<close>

text \<open>
  The translation backend and the cancellation signal are the environment of the call.
  A call of \<^verbatim>\<open>translateBatch\<close> first creates a session and then prompts it: creating the
  session may throw (nothing catches it), the prompt may throw (caught: the whole batch
  is missing), or the session answers with a text. The backend is any function of the
  number of calls made before and of the batch's input content (the prompt is this
  content after a constant header: the system prompt and the language line). The
  signal is read as a function of the number of calls made so far; a call without a
  signal has \<open>aborted = (\<lambda>k. False)\<close>.
\<close>

datatype reply = SessionFailed | PromptFailed | Reply string

record world =
  backend :: "nat \<Rightarrow> string \<Rightarrow> reply"
  aborted :: "nat \<Rightarrow> bool"

record TranslateOptions =
  batchSize :: "nat option"
  concurrency :: nat
  onProgress :: bool

text \<open>The effects of a call: the number of backend calls, the batches whose prompt was
  sent (each with the reply to it), and the messages handed to \<^verbatim>\<open>onProgress\<close>.\<close>

record tstate =
  calls :: nat
  sent :: "(ParagraphChunk list \<times> reply) list"
  progress :: "string list"

record BatchResult =
  translated :: "ParagraphChunk list"
  missing :: "ParagraphChunk list"

definition MAX_RETRIES :: nat where "MAX_RETRIES = 2"

text \<open>\<^verbatim>\<open>xs.join(sep)\<close>.\<close>

fun join :: "string \<Rightarrow> string list \<Rightarrow> string" where
  "join sep [] = []"
| "join sep [x] = x"
| "join sep (x # y # ys) = x @ sep @ join sep (y # ys)"

definition inputContent :: "ParagraphChunk list \<Rightarrow> string" where
  \<open>inputContent batch =
     join [CHR 0x0A] (map (\<lambda>c. ''<p id="'' @ show_nat (index c) @ ''">'' @ simplifiedText c @ ''</p>'') batch)\<close>

text \<open>\<^verbatim>\<open>/<p id="(\d+)">([\s\S]*?)<\/p>/\<close>: the digits (group 1) and the lazy body (group 2).\<close>

definition m_response :: "(string \<times> string) matcher" where
  \<open>m_response s =
     (if prefix ''<p id="'' s then
        (let ds = takeWhile is_digit (drop 7 s) in
         if ds = [] then None
         else if prefix ''">'' (dropWhile is_digit (drop 7 s)) then
           (case index_of ''</p>'' (drop 2 (dropWhile is_digit (drop 7 s))) of
              None \<Rightarrow> None
            | Some k \<Rightarrow>
                Some ((ds, take k (drop 2 (dropWhile is_digit (drop 7 s)))), 7 + length ds + 2 + k + 4))
         else None)
      else None)\<close>

text \<open>The loop over the matches of the response: a match whose ID is the index of a chunk
  of the batch gives a translated chunk (the first such chunk, with the trimmed body as
  its text unless that is empty) and marks the ID as found.\<close>

definition parse_step ::
  "ParagraphChunk list \<Rightarrow> ParagraphChunk list \<times> nat list \<Rightarrow> string \<times> string \<times> (string \<times> string)
     \<Rightarrow> ParagraphChunk list \<times> nat list" where
  "parse_step batch acc seg =
     (case acc of (results, foundIds) \<Rightarrow>
        case seg of (pre, whole, idStr, body) \<Rightarrow>
          (let ident = parseInt idStr; translatedText = trim body
           in case find (\<lambda>c. index c = ident) batch of
                None \<Rightarrow> (results, foundIds)
              | Some original \<Rightarrow>
                  (results @
                     [original\<lparr>simplifiedText :=
                         (if translatedText \<noteq> [] then translatedText else simplifiedText original),
                       hasText := True\<rparr>],
                   foundIds @ [ident])))"

definition parse_response :: "ParagraphChunk list \<Rightarrow> string \<Rightarrow> BatchResult" where
  "parse_response batch resultText =
     (case foldl (parse_step batch) ([], []) (fst (gmatch m_response [] resultText)) of
        (results, foundIds) \<Rightarrow>
          \<lparr>translated = results, missing = filter (\<lambda>chunk. index chunk \<notin> set foundIds) batch\<rparr>)"

definition translateBatch ::
  "world \<Rightarrow> tstate \<Rightarrow> ParagraphChunk list \<Rightarrow> (js_error + BatchResult) \<times> tstate" where
  "translateBatch w st batch =
     (if batch = [] then (Inr \<lparr>translated = [], missing = []\<rparr>, st)
      else
        (case backend w (calls st) (inputContent batch) of
           SessionFailed \<Rightarrow> (Inl SessionError, st\<lparr>calls := calls st + 1\<rparr>)
         | PromptFailed \<Rightarrow>
             (Inr \<lparr>translated = [], missing = batch\<rparr>,
              st\<lparr>calls := calls st + 1, sent := sent st @ [(batch, PromptFailed)]\<rparr>)
         | Reply resultText \<Rightarrow>
             (Inr (parse_response batch resultText),
              st\<lparr>calls := calls st + 1, sent := sent st @ [(batch, Reply resultText)]\<rparr>)))"

text \<open>The chunk that the parsing loop pushes for a match with body \<open>body\<close> whose ID is the
  index of \<open>original\<close>.\<close>

definition translated_of :: "ParagraphChunk \<Rightarrow> string \<Rightarrow> ParagraphChunk" where
  "translated_of original body =
     original\<lparr>simplifiedText := (if trim body \<noteq> [] then trim body else simplifiedText original),
              hasText := True\<rparr>"

text \<open>The IDs that the response regex finds in a reply (none when the prompt failed).\<close>

definition reply_ids :: "reply \<Rightarrow> nat list" where
  "reply_ids r =
     (case r of
        Reply resultText \<Rightarrow>
          map (\<lambda>(pre, whole, idStr, body). parseInt idStr) (fst (gmatch m_response [] resultText))
      | _ \<Rightarrow> [])"

definition seg_ids :: "(string \<times> string \<times> string \<times> string) list \<Rightarrow> nat set" where
  "seg_ids segs = (\<lambda>(pre, whole, idStr, body). parseInt idStr) ` set segs"

text \<open>A chunk is absent from the replies of a log when no reply to a batch that holds the
  chunk names the chunk's index.\<close>

definition absent_in :: "ParagraphChunk \<Rightarrow> (ParagraphChunk list \<times> reply) list \<Rightarrow> bool" where
  "absent_in c log \<longleftrightarrow> (\<forall>(b, r) \<in> set log. c \<in> set b \<longrightarrow> index c \<notin> set (reply_ids r))"

text \<open>\<^verbatim>\<open>results[i] = v\<close> on a JavaScript array: writing past the end extends the array with
  holes (\<open>None\<close>).\<close>

definition arr_set :: "'a option list \<Rightarrow> nat \<Rightarrow> 'a \<Rightarrow> 'a option list" where
  "arr_set xs i v =
     (if i < length xs then xs[i := Some v]
      else xs @ replicate (i - length xs) None @ [Some v])"

definition store_all :: "ParagraphChunk option list \<Rightarrow> ParagraphChunk list \<Rightarrow> ParagraphChunk option list" where
  "store_all results cs = foldl (\<lambda>r chunk. arr_set r (index chunk) chunk) results cs"

text \<open>The batches of the loop \<^verbatim>\<open>for (i = 0; i < toTranslate.length; i += batchSize)\<close>. With
  \<open>batchSize = 0\<close> and something to translate the loop does not end.\<close>

partial_function (option) group_batches ::
  "nat \<Rightarrow> ParagraphChunk list \<Rightarrow> nat \<Rightarrow> ParagraphChunk list list \<Rightarrow> ParagraphChunk list list option" where
  "group_batches bsize toTranslate i batches =
     (if i < length toTranslate
      then group_batches bsize toTranslate (i + bsize) (batches @ [take bsize (drop i toTranslate)])
      else Some batches)"

text \<open>\<^verbatim>\<open>Promise.all(currentBatches.map(translateBatch))\<close>: every batch of the wave is
  dispatched, in order; the results come in the order of the batches, whichever
  finishes first; one rejected call rejects the wave.\<close>

fun run_wave ::
  "world \<Rightarrow> tstate \<Rightarrow> ParagraphChunk list list \<Rightarrow> (js_error + BatchResult list) \<times> tstate" where
  "run_wave w st [] = (Inr [], st)"
| "run_wave w st (batch # batches) =
     (case translateBatch w st batch of
        (r, st1) \<Rightarrow>
          (case run_wave w st1 batches of
             (rs, st2) \<Rightarrow>
               ((case r of
                   Inl e \<Rightarrow> Inl e
                 | Inr br \<Rightarrow> (case rs of Inl e \<Rightarrow> Inl e | Inr brs \<Rightarrow> Inr (br # brs))),
                st2)))"

text \<open>The loop over the waves, the same for the first pass and for every retry: the
  signal is checked before each wave; the translated chunks of the wave are stored by
  index and its missing chunks collected. With \<open>concurrency = 0\<close> the loop does not end.\<close>

partial_function (option) wave_loop ::
  "world \<Rightarrow> nat \<Rightarrow> ParagraphChunk list list \<Rightarrow> nat \<Rightarrow> tstate \<Rightarrow> ParagraphChunk option list
     \<Rightarrow> ParagraphChunk list
     \<Rightarrow> ((js_error + ParagraphChunk option list \<times> ParagraphChunk list) \<times> tstate) option" where
  "wave_loop w conc batches i st results allMissing =
     (if i < length batches then
        (if aborted w (calls st) then Some (Inl Aborted, st)
         else
           (case run_wave w st (take conc (drop i batches)) of
              (Inl e, st') \<Rightarrow> Some (Inl e, st')
            | (Inr batchResults, st') \<Rightarrow>
                wave_loop w conc batches (i + conc) st'
                  (store_all results (concat (map translated batchResults)))
                  (allMissing @ concat (map missing batchResults))))
      else Some (Inr (results, allMissing), st))"

text \<open>The messages of the retry loop and of the fallback.\<close>

definition missingIds :: "ParagraphChunk list \<Rightarrow> string" where
  "missingIds allMissing = join '', '' (map (\<lambda>c. show_nat (index c)) allMissing)"

definition retry_message :: "nat \<Rightarrow> ParagraphChunk list \<Rightarrow> string" where
  "retry_message retry allMissing =
     ''Retry '' @ show_nat retry @ ''/'' @ show_nat MAX_RETRIES @ '': '' @
     show_nat (length allMissing) @ '' chunks missing (ids: '' @ missingIds allMissing @
     ''), retranslating...''"

definition warning_message :: "ParagraphChunk list \<Rightarrow> string" where
  "warning_message allMissing =
     ''Warning: '' @ show_nat (length allMissing) @ '' chunks could not be translated after '' @
     show_nat MAX_RETRIES @ '' retries (ids: '' @ missingIds allMissing @
     ''). Keeping original text.''"

definition emit :: "TranslateOptions \<Rightarrow> string \<Rightarrow> tstate \<Rightarrow> tstate" where
  "emit options msg st = (if onProgress options then st\<lparr>progress := progress st @ [msg]\<rparr> else st)"

text \<open>The retry loop: while chunks are missing and the retry limit is not passed, every
  missing chunk is sent again in a batch of its own.\<close>

function retry_loop ::
  "world \<Rightarrow> TranslateOptions \<Rightarrow> nat \<Rightarrow> tstate \<Rightarrow> ParagraphChunk option list \<Rightarrow> ParagraphChunk list
     \<Rightarrow> ((js_error + ParagraphChunk option list \<times> ParagraphChunk list) \<times> tstate) option" where
  "retry_loop w options retry st results allMissing =
     (if retry \<le> MAX_RETRIES \<and> allMissing \<noteq> [] then
        (if aborted w (calls st) then Some (Inl Aborted, st)
         else
           (case wave_loop w (concurrency options) (map (\<lambda>c. [c]) allMissing) 0
                   (emit options (retry_message retry allMissing) st) results [] of
              None \<Rightarrow> None
            | Some (Inl e, st') \<Rightarrow> Some (Inl e, st')
            | Some (Inr (results', stillMissing), st') \<Rightarrow>
                retry_loop w options (retry + 1) st' results' stillMissing))
      else Some (Inr (results, allMissing), st))"
  by pat_completeness auto
termination
  by (relation "measure (\<lambda>(w, options, retry, st, results, allMissing). Suc MAX_RETRIES - retry)") auto

declare retry_loop.simps [simp del]

definition initial_tstate :: tstate where
  "initial_tstate = \<lparr>calls = 0, sent = [], progress = []\<rparr>"

definition translatable :: "ParagraphChunk \<Rightarrow> bool" where
  "translatable c \<longleftrightarrow> hasText c \<and> trim (simplifiedText c) \<noteq> []"

text \<open>\<^verbatim>\<open>translateChunksInParallel\<close>: \<open>None\<close> when a loop does not end, otherwise the error
  thrown or the array returned (with its holes), and the effects.\<close>

definition translateChunksInParallel ::
  "world \<Rightarrow> ParagraphChunk list \<Rightarrow> TranslateOptions
     \<Rightarrow> ((js_error + ParagraphChunk option list) \<times> tstate) option" where
  "translateChunksInParallel w chunks options =
     (let results0 = replicate (length chunks) None;
          bsize = (case batchSize options of None \<Rightarrow> 50 | Some b \<Rightarrow> b);
          toTranslate = filter translatable chunks;
          passThrough = filter (\<lambda>c. \<not> translatable c) chunks;
          results1 = store_all results0 passThrough
      in case group_batches bsize toTranslate 0 [] of
           None \<Rightarrow> None
         | Some batches \<Rightarrow>
             (case wave_loop w (concurrency options) batches 0 initial_tstate results1 [] of
                None \<Rightarrow> None
              | Some (Inl e, st) \<Rightarrow> Some (Inl e, st)
              | Some (Inr (results2, allMissing), st) \<Rightarrow>
                  (case retry_loop w options 1 st results2 allMissing of
                     None \<Rightarrow> None
                   | Some (Inl e, st') \<Rightarrow> Some (Inl e, st')
                   | Some (Inr (results3, allMissing'), st') \<Rightarrow>
                       if allMissing' \<noteq> [] then
                         Some (Inr (store_all results3 allMissing'),
                               emit options (warning_message allMissing') st')
                       else Some (Inr results3, st'))))"

text \<open>What one call of \<^verbatim>\<open>translateBatch\<close> does to the effects, and what it returns.\<close>

definition batch_effect ::
  "ParagraphChunk list \<Rightarrow> tstate \<Rightarrow> (js_error + BatchResult) \<Rightarrow> tstate \<Rightarrow> bool" where
  "batch_effect batch st out st' \<longleftrightarrow>
     progress st' = progress st \<and> calls st \<le> calls st' \<and>
     (case out of
        Inl e \<Rightarrow> e = SessionError \<and> sent st' = sent st
      | Inr br \<Rightarrow>
          (\<exists>ext. sent st' = sent st @ ext \<and> fst ` set ext \<subseteq> {batch} \<and>
             set (missing br) \<subseteq> set batch \<and>
             index ` set (translated br) \<subseteq> index ` set batch \<and>
             (\<forall>c \<in> set batch. c \<in> set (missing br) \<or> index c \<in> index ` set (translated br)) \<and>
             (\<forall>c \<in> set batch. absent_in c ext \<longrightarrow> c \<in> set (missing br))))"

definition wave_effect ::
  "ParagraphChunk list list \<Rightarrow> tstate \<Rightarrow> (js_error + BatchResult list) \<Rightarrow> tstate \<Rightarrow> bool" where
  "wave_effect batches st out st' \<longleftrightarrow>
     progress st' = progress st \<and> calls st \<le> calls st' \<and>
     (\<exists>ext. sent st' = sent st @ ext \<and> fst ` set ext \<subseteq> set batches \<and>
        (case out of
           Inl e \<Rightarrow> e = SessionError
         | Inr brs \<Rightarrow>
             set (concat (map missing brs)) \<subseteq> set (concat batches) \<and>
             index ` set (concat (map translated brs)) \<subseteq> index ` set (concat batches) \<and>
             (\<forall>c \<in> set (concat batches).
                c \<in> set (concat (map missing brs)) \<or>
                index c \<in> index ` set (concat (map translated brs))) \<and>
             (\<forall>c \<in> set (concat batches). absent_in c ext \<longrightarrow> c \<in> set (concat (map missing brs)))))"

text \<open>What a loop over waves does, from the chunks still pending, the effects, the result
  array and the missing chunks at its start, to its outcome.\<close>

definition loop_effect ::
  "ParagraphChunk list \<Rightarrow> tstate \<Rightarrow> ParagraphChunk option list \<Rightarrow> ParagraphChunk list
     \<Rightarrow> (js_error + ParagraphChunk option list \<times> ParagraphChunk list) \<Rightarrow> tstate \<Rightarrow> bool" where
  "loop_effect pending st results am out st' \<longleftrightarrow>
     calls st \<le> calls st' \<and>
     (\<exists>ext. sent st' = sent st @ ext \<and> (\<forall>(b, r) \<in> set ext. set b \<subseteq> set pending) \<and>
        (case out of
           Inl e \<Rightarrow> e = Aborted \<or> e = SessionError
         | Inr (results', am') \<Rightarrow>
             (\<exists>ts new. results' = store_all results ts \<and> am' = am @ new \<and>
                set new \<subseteq> set pending \<and> index ` set ts \<subseteq> index ` set pending \<and>
                (\<forall>c \<in> set pending. c \<in> set new \<or> index c \<in> index ` set ts) \<and>
                (\<forall>c \<in> set pending. absent_in c ext \<longrightarrow> c \<in> set new))))"

text \<open>What a call of \<^verbatim>\<open>translateChunksInParallel\<close> that ends has done: every batch sent
  holds translatable chunks only; an error thrown is the cancellation or a failed session;
  the array returned is the array of holes with the pass-through chunks, then the
  translated chunks \<open>ts\<close>, then the chunks \<open>am\<close> still missing after the retries, stored by
  index in this order.\<close>

definition call_effect ::
  "ParagraphChunk list \<Rightarrow> TranslateOptions \<Rightarrow> (js_error + ParagraphChunk option list) \<Rightarrow> tstate \<Rightarrow> bool" where
  "call_effect chunks options out st' \<longleftrightarrow>
     (\<forall>(b, r) \<in> set (sent st'). set b \<subseteq> set (filter translatable chunks)) \<and>
     (case out of
        Inl e \<Rightarrow> e = Aborted \<or> e = SessionError
      | Inr rs \<Rightarrow>
          (\<exists>ts am.
             rs = store_all
                    (store_all (replicate (length chunks) None) (filter (\<lambda>c. \<not> translatable c) chunks))
                    (ts @ am) \<and>
             index ` set ts \<subseteq> index ` set (filter translatable chunks) \<and>
             set am \<subseteq> set (filter translatable chunks) \<and>
             (\<forall>c \<in> set (filter translatable chunks). c \<in> set am \<or> index c \<in> index ` set ts) \<and>
             (\<forall>c \<in> set (filter translatable chunks). absent_in c (sent st') \<longrightarrow> c \<in> set am) \<and>
             (am \<noteq> [] \<longrightarrow> onProgress options \<longrightarrow> warning_message am \<in> set (progress st'))))"

text \<open>Three chunks, the second without text; a backend that answers with its own prompt
  (the identity translation), one that only ever translates chunk 0, and a signal that is
  aborted from the start.\<close>

definition example_chunks :: "ParagraphChunk list" where
  "example_chunks =
     [\<lparr>index = 0, simplifiedText = ''[RUN:1]Hello[/RUN:1]'', hasText = True\<rparr>,
      \<lparr>index = 1, simplifiedText = [], hasText = False\<rparr>,
      \<lparr>index = 2, simplifiedText = ''[RUN:2]World[/RUN:2]'', hasText = True\<rparr>]"

definition echo_world :: world where
  "echo_world = \<lparr>backend = (\<lambda>k prompt. Reply prompt), aborted = (\<lambda>k. False)\<rparr>"

definition partial_world :: world where
  \<open>partial_world = \<lparr>backend = (\<lambda>k prompt. Reply ''<p id="0">  Hallo  </p>''), aborted = (\<lambda>k. False)\<rparr>\<close>

definition aborted_world :: world where
  "aborted_world = \<lparr>backend = (\<lambda>k prompt. Reply prompt), aborted = (\<lambda>k. True)\<rparr>"

definition example_options :: TranslateOptions where
  "example_options = \<lparr>batchSize = None, concurrency = 5, onProgress = True\<rparr>"

text \<open>\<^verbatim>\<open>/<(\/?)([a-zA-Z0-9:]+)([^>]*?)(\/?)>/\<close>: after \<^verbatim>\<open><\<close> and a slash, if there is one
  (group 1), the name is the longest run of name characters (group 2), the tag ends at
  the first \<^verbatim>\<open>>\<close>, and group 4 is the slash that stands directly before it, if it is not
  part of the name's run. The groups of the matcher are: is group 1 non-empty, the name,
  is group 4 non-empty.\<close>

definition is_name_char :: "char \<Rightarrow> bool" where
  "is_name_char c \<longleftrightarrow>
     c \<in> set ''abcdefghijklmnopqrstuvwxyzABCDEFGHIJKLMNOPQRSTUVWXYZ0123456789:''"

definition tagRegex :: "(bool \<times> string \<times> bool) matcher" where
  "tagRegex s =
     (case s of
        [] \<Rightarrow> None
      | c # r0 \<Rightarrow>
          if c \<noteq> CHR ''<'' then None
          else
            (let isClosing = prefix ''/'' r0;
                 r = (if isClosing then drop 1 r0 else r0);
                 tagName = takeWhile is_name_char r;
                 rest = dropWhile is_name_char r
             in if tagName = [] then None
                else
                  (case index_of ''>'' rest of
                     None \<Rightarrow> None
                   | Some k \<Rightarrow>
                       Some ((isClosing, tagName, 0 < k \<and> rest ! (k - 1) = CHR ''/''),
                             1 + (if isClosing then 1 else 0) + length tagName + k + 1))))"

text \<open>The message of the error thrown for a closing tag that does not close the tag on
  top of the stack.\<close>

definition mismatch_message :: "string \<Rightarrow> string \<Rightarrow> string option \<Rightarrow> nat \<Rightarrow> string" where
  "mismatch_message xml tagName expected pos =
     ''Malformed XML: closing </'' @ tagName @ ''> but expected </'' @
     (case expected of None \<Rightarrow> ''?'' | Some t \<Rightarrow> t) @ ''> near position '' @ show_nat pos @
     [CHR 0x0A] @ ''Context: ...'' @
     take (min (length xml) (pos + 80) - (pos - 80)) (drop (pos - 80) xml) @ ''...''"

text \<open>The loop over the tags: a self-closing tag is skipped, an opening tag pushed, a
  closing tag must be the tag popped (\<^verbatim>\<open>pop\<close> of the empty stack gives \<^verbatim>\<open>undefined\<close>).\<close>

fun validate_loop ::
  "string \<Rightarrow> nat \<Rightarrow> string list \<Rightarrow> (string \<times> string \<times> bool \<times> string \<times> bool) list
     \<Rightarrow> js_error + string list" where
  "validate_loop xml lastIndex tagStack [] = Inr tagStack"
| "validate_loop xml lastIndex tagStack ((pre, whole, isClosing, tagName, isSelfClosing) # segs) =
     (let pos = lastIndex + length pre in
      if isSelfClosing then validate_loop xml (pos + length whole) tagStack segs
      else if isClosing then
        (let expected = (if tagStack = [] then None else Some (last tagStack)) in
         if expected \<noteq> Some tagName
         then Inl (Malformed (mismatch_message xml tagName expected pos))
         else validate_loop xml (pos + length whole) (butlast tagStack) segs)
      else validate_loop xml (pos + length whole) (tagStack @ [tagName]) segs)"

definition validateXml :: "string \<Rightarrow> js_error + unit" where
  "validateXml xml =
     (case validate_loop xml 0 [] (fst (gmatch tagRegex [] xml)) of
        Inl e \<Rightarrow> Inl e
      | Inr tagStack \<Rightarrow>
          if tagStack \<noteq> []
          then Inl (Malformed (''Malformed XML: unclosed tags: '' @ join '', '' tagStack))
          else Inr ())"

text \<open>
  What \<^verbatim>\<open>translateDocx\<close> reads from outside: what \<^verbatim>\<open>extractDocxXml\<close> gives for the input
  path (the document XML, or the error it throws), the sessions and the signal, and the
  error of \<^verbatim>\<open>writeFile\<close>, if it fails. From the options: the target language, the
  concurrency, if given, and whether there is a progress callback. The effects: the XML
  of every call of \<^verbatim>\<open>repackDocx\<close>, the progress messages, and the effects of
  \<^verbatim>\<open>translateChunksInParallel\<close>.
\<close>

record docx_world =
  extracted :: "js_error + string"
  agents :: world
  write_error :: "js_error option"

record TranslateDocxOptions =
  targetLanguage :: string
  concurrencyOption :: "nat option"
  progressCallback :: bool

record dstate =
  repacked :: "string list"
  reported :: "string list"
  sessions :: tstate

definition initial_dstate :: dstate where
  "initial_dstate = \<lparr>repacked = [], reported = [], sessions = initial_tstate\<rparr>"

definition report :: "TranslateDocxOptions \<Rightarrow> string \<Rightarrow> dstate \<Rightarrow> dstate" where
  "report options msg st =
     (if progressCallback options then st\<lparr>reported := reported st @ [msg]\<rparr> else st)"

definition repackDocx :: "docx_world \<Rightarrow> string \<Rightarrow> dstate \<Rightarrow> (js_error + unit) \<times> dstate" where
  "repackDocx env xml st =
     ((case write_error env of None \<Rightarrow> Inr () | Some e \<Rightarrow> Inl e),
      st\<lparr>repacked := repacked st @ [xml]\<rparr>)"

text \<open>\<^verbatim>\<open>translateDocx\<close>: \<open>None\<close> when the translation does not end, otherwise the error
  thrown or \<^verbatim>\<open>chunksTranslated\<close> of the result, and the effects. A hole in the array of
  translated chunks makes the loop of \<^verbatim>\<open>reconstructXml\<close> over the chunks throw.\<close>

definition translateDocx ::
  "docx_world \<Rightarrow> TranslateDocxOptions \<Rightarrow> ((js_error + nat) \<times> dstate) option" where
  "translateDocx env options =
     (let st0 = report options ''Extracting document XML...'' initial_dstate in
      case extracted env of
        Inl e \<Rightarrow> Some (Inl e, st0)
      | Inr documentXml \<Rightarrow>
          (let st1 = report options ''Chunking paragraphs...'' st0 in
           case replaceTagsWithIds (chunkParagraphs documentXml) of
             (chunks, idMap) \<Rightarrow>
               if chunks = [] \<or> \<not> list_ex hasText chunks then
                 (case repackDocx env documentXml (report options ''No translatable text found.'' st1) of
                    (Inl e, st2) \<Rightarrow> Some (Inl e, st2)
                  | (Inr u, st2) \<Rightarrow> Some (Inr 0, st2))
               else
                 (let translatableCount = length (filter hasText chunks);
                      st2 = report options
                              (''Translating '' @ show_nat translatableCount @ '' chunks to '' @
                               targetLanguage options @ ''...'') st1
                  in case translateChunksInParallel (agents env) chunks
                            \<lparr>batchSize = None,
                             concurrency = (case concurrencyOption options of None \<Rightarrow> 5 | Some n \<Rightarrow> n),
                             onProgress = False\<rparr> of
                       None \<Rightarrow> None
                     | Some (Inl e, ts) \<Rightarrow> Some (Inl e, st2\<lparr>sessions := ts\<rparr>)
                     | Some (Inr translatedChunks, ts) \<Rightarrow>
                         (let st3 = report options ''Reconstructing document...'' (st2\<lparr>sessions := ts\<rparr>) in
                          if list_ex (\<lambda>chunk. chunk = None) translatedChunks then Some (Inl TypeError, st3)
                          else
                            (case reconstructXml documentXml (map the translatedChunks) idMap of
                               Inl e \<Rightarrow> Some (Inl e, st3)
                             | Inr translatedXml \<Rightarrow>
                                 (case validateXml translatedXml of
                                    Inl e \<Rightarrow> Some (Inl e, st3)
                                  | Inr u \<Rightarrow>
                                      (case repackDocx env translatedXml st3 of
                                         (Inl e, st4) \<Rightarrow> Some (Inl e, st4)
                                       | (Inr u', st4) \<Rightarrow>
                                           Some (Inr translatableCount,
                                                 report options
                                                   (''Done. Translated '' @ show_nat translatableCount @
                                                    '' chunks to '' @ targetLanguage options @ ''.'')
                                                   st4))))))))"

text \<open>A backend whose replies are empty, and two pairs of chunks that share an index: a
  chunk without text before a translatable one, and two translatable ones.\<close>

definition silent_world :: world where
  "silent_world = \<lparr>backend = (\<lambda>k prompt. Reply []), aborted = (\<lambda>k. False)\<rparr>"

definition shared_index_chunks :: "ParagraphChunk list" where
  "shared_index_chunks =
     [\<lparr>index = 0, simplifiedText = [], hasText = False\<rparr>,
      \<lparr>index = 0, simplifiedText = ''Hello'', hasText = True\<rparr>]"

definition shared_index_missing :: "ParagraphChunk list" where
  "shared_index_missing =
     [\<lparr>index = 0, simplifiedText = ''Hello'', hasText = True\<rparr>,
      \<lparr>index = 0, simplifiedText = ''World'', hasText = True\<rparr>]"








section \<open>Restoring never throws\<close>






text \<open>A fragment that is not JSON and an ID without an entry: the text between the paired
  markers is kept and the unpaired marker leaves nothing.\<close>

lemma restore_unknown_ids_example:
  "restoreParagraphXml ''[RUN:1]Hallo[/RUN:1][TAG:7]'' [(1, ''<w:pPr/>'')] = Inr ''Hallo''"
  by code_simp

section \<open>Escaping of translated text\<close>

text \<open>The scenario of the test suite: the five characters are escaped one after the
  other, the ampersand first.\<close>

lemma restore_escapes_example:
  "restoreParagraphXml ''[RUN:1]A & B < C[/RUN:1]''
     [(1, stringify_template ''<w:r>'' ''</w:r>'' ''<w:t>{{TEXT}}</w:t>'')]
   = Inr ''<w:r><w:t>A &amp; B &lt; C</w:t></w:r>''"
  by code_simp

text \<open>
  C3. The escaped text is handed to \<^verbatim>\<open>tTemplate.replace("{{TEXT}}", ...)\<close> as a
  replacement template, so a dollar sign before an ampersand is not text: in the
  translated text \<^verbatim>\<open>A $& B\<close> the ampersand becomes \<^verbatim>\<open>&amp;\<close>, and \<^verbatim>\<open>$&\<close> is then replaced
  by the placeholder itself. The ampersand of the translated text does not appear as
  \<^verbatim>\<open>&amp;\<close> in the output.
\<close>

theorem restore_dollar_ampersand:
  "restoreParagraphXml ''[RUN:1]A $& B[/RUN:1]''
     [(1, stringify_template ''<w:r>'' ''</w:r>'' ''<w:t>{{TEXT}}</w:t>'')]
   = Inr ''<w:r><w:t>A {{TEXT}}amp; B</w:t></w:r>''"
  by code_simp

lemma restore_dollar_less_example:
  "restoreParagraphXml ''[RUN:1]costs $<5[/RUN:1]''
     [(1, stringify_template ''<w:r>'' ''</w:r>'' ''<w:t>{{TEXT}}</w:t>'')]
   = Inr ''<w:r><w:t>costs {{TEXT}}lt;5</w:t></w:r>''"
  by code_simp

section \<open>The IDs of the extractor\<close>

lemma update_fresh:
  "k \<notin> fst ` set al \<Longrightarrow> AList.update k v al = al @ [(k, v)]"
  by (induction al) auto

lemma alloc_keys:
  assumes "map fst (idTagMap st) = [1..<nextId st]" "1 \<le> nextId st"
    and "alloc st frag = (n, st')"
  shows "n = nextId st \<and> nextId st' = Suc (nextId st)
       \<and> idTagMap st' = idTagMap st @ [(nextId st, frag)]
       \<and> map fst (idTagMap st') = [1..<nextId st']"
proof -
  have "nextId st \<notin> set (map fst (idTagMap st))" using assms(1) by simp
  then have "nextId st \<notin> fst ` set (idTagMap st)" by simp
  then have "AList.update (nextId st) frag (idTagMap st) = idTagMap st @ [(nextId st, frag)]"
    by (rule update_fresh)
  with assms show ?thesis by (auto simp: alloc_def)
qed

lemma upt_snoc: "b \<le> n \<Longrightarrow> [b..<n] @ [n] = [b..<Suc n]" by simp

lemma inv_opaque_span: "ids_invariant base sp \<Longrightarrow> ids_invariant base (opaque_span sp span)"
proof -
  assume i: "ids_invariant base sp"
  obtain st ps where sp: "sp = (st, ps)" by (cases sp)
  show ?thesis
  proof (cases "span \<noteq> [] \<and> trim span \<noteq> []")
    case False
    with i sp show ?thesis by (auto simp: opaque_span_def)
  next
    case True
    obtain n st' where a: "alloc st span = (n, st')" by (cases "alloc st span")
    from i sp have "map fst (idTagMap st) = [1..<nextId st]" "1 \<le> nextId st"
      by (auto simp: ids_invariant_def)
    from alloc_keys [OF this a] i sp True a show ?thesis
      by (auto simp: opaque_span_def ids_invariant_def)
  qed
qed

lemma inv_text_run: "ids_invariant base sp \<Longrightarrow> ids_invariant base (text_run sp run text tFull)"
proof -
  assume i: "ids_invariant base sp"
  obtain st ps where sp: "sp = (st, ps)" by (cases sp)
  let ?f = "stringify_template (slice run 0 (indexOf run tFull))
     (slice_from run (indexOf run tFull + int (length tFull))) (tElementTemplate tFull text)"
  obtain n st' where a: "alloc st ?f = (n, st')" by (cases "alloc st ?f")
  from i sp have "map fst (idTagMap st) = [1..<nextId st]" "1 \<le> nextId st"
    by (auto simp: ids_invariant_def)
  from alloc_keys [OF this a] i sp a show ?thesis
    by (auto simp: text_run_def ids_invariant_def Let_def)
qed

lemma inv_run_step: "ids_invariant base sp \<Longrightarrow> ids_invariant base (run_step sp seg)"
proof -
  assume i: "ids_invariant base sp"
  obtain between run runInner where seg: "seg = (between, run, runInner)" by (cases seg)
  have i1: "ids_invariant base (opaque_span sp between)" using i by (rule inv_opaque_span)
  show ?thesis
  proof (cases "first_match m_text runInner")
    case (Some a)
    then obtain tx tFull where "first_match m_text runInner = Some (tx, tFull)" by (cases a) auto
    with seg i1 show ?thesis by (simp add: run_step_def inv_text_run)
  next
    case None
    obtain st ps where sp1: "opaque_span sp between = (st, ps)" by (cases "opaque_span sp between")
    obtain n st' where a: "alloc st run = (n, st')" by (cases "alloc st run")
    from i1 sp1 have "map fst (idTagMap st) = [1..<nextId st]" "1 \<le> nextId st"
      by (auto simp: ids_invariant_def)
    from alloc_keys [OF this a] i1 sp1 a None seg show ?thesis
      by (auto simp: run_step_def ids_invariant_def)
  qed
qed

lemma inv_foldl: "ids_invariant base sp \<Longrightarrow> ids_invariant base (foldl run_step sp segs)"
  by (induction segs arbitrary: sp) (auto simp: inv_run_step)

lemma inv_simplify_paragraph:
  assumes "map fst (idTagMap st) = [1..<nextId st]" "1 \<le> nextId st"
  shows "ids_invariant (nextId st) (simplify_paragraph st para)"
proof -
  have "ids_invariant (nextId st) (st, [])" using assms by (simp add: ids_invariant_def)
  then show ?thesis
    by (auto simp: simplify_paragraph_def inv_opaque_span inv_foldl split: prod.splits)
qed


lemma replace_loop_hasText:
  "replace_loop i paragraphs st = (chunks, st') \<Longrightarrow>
   map hasText chunks = map (\<lambda>p. trim (extractTextContent p) \<noteq> []) paragraphs"
proof (induction paragraphs arbitrary: i st chunks st')
  case Nil
  then show ?case by simp
next
  case (Cons para paragraphs)
  show ?case
  proof (cases "trim (extractTextContent para) = []")
    case True
    obtain cs st2 where r: "replace_loop (i + 1) paragraphs st = (cs, st2)"
      by (cases "replace_loop (i + 1) paragraphs st")
    from Cons.IH [OF r] Cons.prems True r show ?thesis by auto
  next
    case False
    obtain st1 ps where s: "simplify_paragraph st para = (st1, ps)"
      by (cases "simplify_paragraph st para")
    obtain cs st2 where r: "replace_loop (i + 1) paragraphs st1 = (cs, st2)"
      by (cases "replace_loop (i + 1) paragraphs st1")
    from Cons.IH [OF r] Cons.prems False s r show ?thesis by auto
  qed
qed

lemma replace_loop_inv:
  assumes "map fst (idTagMap st) = [1..<nextId st]" "1 \<le> nextId st"
    and "replace_loop i paragraphs st = (chunks, st')"
  shows "map fst (idTagMap st') = [1..<nextId st'] \<and> nextId st \<le> nextId st'
       \<and> map piece_id (concat (pieces_loop paragraphs st)) = [nextId st..<nextId st']
       \<and> map simplifiedText chunks = map render (pieces_loop paragraphs st)"
  using assms
proof (induction paragraphs arbitrary: i st chunks st')
  case Nil
  then show ?case by simp
next
  case (Cons para paragraphs)
  show ?case
  proof (cases "trim (extractTextContent para) = []")
    case True
    obtain cs st2 where r: "replace_loop (i + 1) paragraphs st = (cs, st2)"
      by (cases "replace_loop (i + 1) paragraphs st")
    from Cons.IH [OF Cons.prems(1,2) r] Cons.prems(3) True r show ?thesis
      by (auto simp: render_def)
  next
    case False
    obtain st1 ps where s: "simplify_paragraph st para = (st1, ps)"
      by (cases "simplify_paragraph st para")
    obtain cs st2 where r: "replace_loop (i + 1) paragraphs st1 = (cs, st2)"
      by (cases "replace_loop (i + 1) paragraphs st1")
    from inv_simplify_paragraph [OF Cons.prems(1,2), of para] s
    have i1: "map fst (idTagMap st1) = [1..<nextId st1]" "1 \<le> nextId st1"
      "nextId st \<le> nextId st1" "map piece_id ps = [nextId st..<nextId st1]"
      using Cons.prems(2) by (auto simp: ids_invariant_def)
    from Cons.IH [OF i1(1,2) r]
    have ih: "map fst (idTagMap st2) = [1..<nextId st2]" "nextId st1 \<le> nextId st2"
      "map piece_id (concat (pieces_loop paragraphs st1)) = [nextId st1..<nextId st2]"
      "map simplifiedText cs = map render (pieces_loop paragraphs st1)"
      by auto
    have app: "[nextId st..<nextId st1] @ [nextId st1..<nextId st2] = [nextId st..<nextId st2]"
      using i1(3) ih(2) by (metis le_Suc_ex upt_add_eq_append)
    from Cons.prems(3) False s r have c: "chunks = \<lparr>index = i, simplifiedText = render ps, hasText = True\<rparr> # cs"
      and st': "st' = st2" by auto
    have p: "pieces_loop (para # paragraphs) st = ps # pieces_loop paragraphs st1"
      using False s by simp
    show ?thesis
      unfolding p c st' using i1 ih app by simp
  qed
qed


lemma one_entry:
  "distinct (map fst al) \<Longrightarrow> k \<in> fst ` set al \<Longrightarrow> length (filter (\<lambda>e. fst e = k) al) = 1"
proof (induction al)
  case Nil
  then show ?case by simp
next
  case (Cons a al)
  show ?case
  proof (cases "fst a = k")
    case True
    with Cons.prems(1) have nk: "k \<notin> fst ` set al" by simp
    have "\<forall>e \<in> set al. fst e \<noteq> k"
    proof
      fix e assume "e \<in> set al"
      then have "fst e \<in> fst ` set al" by (rule imageI)
      with nk show "fst e \<noteq> k" by metis
    qed
    then have "filter (\<lambda>e. fst e = k) al = []"
      by (simp add: filter_empty_conv)
    with True show ?thesis by simp
  next
    case False
    with Cons show ?thesis by auto
  qed
qed

text \<open>
  C9 (as amended). The simplified text of every chunk is the printed list of the pieces
  that \<^verbatim>\<open>replaceTagsWithIds\<close> wrote for its paragraph. Over the whole document the IDs of
  these pieces, in the order they were written, are the keys of the returned map in the
  order they were set: \<open>1, 2, 3, ...\<close>, strictly increasing, no key twice. So the ID of
  every marker the extractor wrote has exactly one entry in the map.
\<close>

theorem replaceTagsWithIds_ids:
  "map simplifiedText (fst (replaceTagsWithIds paragraphs)) = map render (paragraph_pieces paragraphs) \<and>
   map piece_id (concat (paragraph_pieces paragraphs)) = map fst (snd (replaceTagsWithIds paragraphs)) \<and>
   map fst (snd (replaceTagsWithIds paragraphs)) = [1..<Suc (length (snd (replaceTagsWithIds paragraphs)))] \<and>
   sorted_wrt (<) (map piece_id (concat (paragraph_pieces paragraphs))) \<and>
   distinct (map fst (snd (replaceTagsWithIds paragraphs))) \<and>
   (\<forall>p \<in> set (concat (paragraph_pieces paragraphs)).
      length (filter (\<lambda>e. fst e = piece_id p) (snd (replaceTagsWithIds paragraphs))) = 1)"
proof -
  let ?st0 = "\<lparr>nextId = 1, idTagMap = []\<rparr>"
  obtain chunks st where r: "replace_loop 0 paragraphs ?st0 = (chunks, st)"
    by (cases "replace_loop 0 paragraphs ?st0")
  have "map fst (idTagMap ?st0) = [1..<nextId ?st0]" "1 \<le> nextId ?st0" by simp_all
  from replace_loop_inv [OF this r]
  have keys: "map fst (idTagMap st) = [1..<nextId st]"
    and ids: "map piece_id (concat (pieces_loop paragraphs ?st0)) = [1..<nextId st]"
    and texts: "map simplifiedText chunks = map render (pieces_loop paragraphs ?st0)"
    and le: "1 \<le> nextId st"
    by auto
  have res: "replaceTagsWithIds paragraphs = (chunks, idTagMap st)"
    using r by (simp add: replaceTagsWithIds_def)
  have "length (idTagMap st) = length [1..<nextId st]"
    using keys by (metis length_map)
  then have len: "Suc (length (idTagMap st)) = nextId st" using le by simp
  have d: "distinct (map fst (idTagMap st))" unfolding keys by simp
  have "\<forall>p \<in> set (concat (pieces_loop paragraphs ?st0)).
      length (filter (\<lambda>e. fst e = piece_id p) (idTagMap st)) = 1"
  proof
    fix p assume "p \<in> set (concat (pieces_loop paragraphs ?st0))"
    then have "piece_id p \<in> set (map piece_id (concat (pieces_loop paragraphs ?st0)))"
      by (metis imageI set_map)
    then have "piece_id p \<in> set (map fst (idTagMap st))" unfolding ids keys .
    then have "piece_id p \<in> fst ` set (idTagMap st)" by simp
    with d show "length (filter (\<lambda>e. fst e = piece_id p) (idTagMap st)) = 1"
      by (rule one_entry)
  qed
  moreover have "sorted_wrt (<) (map piece_id (concat (pieces_loop paragraphs ?st0)))"
    unfolding ids by simp
  ultimately show ?thesis
    unfolding res paragraph_pieces_def using keys ids texts len d by simp
qed

theorem replaceTagsWithIds_ids_witness:
  "RunPiece 2 ''Hello'' \<in> set (concat (paragraph_pieces [''<w:p><w:r><w:t>Hello</w:t></w:r></w:p>''])) \<and>
   length (filter (\<lambda>e. fst e = 2) (snd (replaceTagsWithIds [''<w:p><w:r><w:t>Hello</w:t></w:r></w:p>'']))) = 1 \<and>
   map fst (snd (replaceTagsWithIds [''<w:p><w:r><w:t>Hello</w:t></w:r></w:p>''])) = [1, 2, 3] \<and>
   map simplifiedText (fst (replaceTagsWithIds [''<w:p><w:r><w:t>Hello</w:t></w:r></w:p>'']))
     = [''[TAG:1][RUN:2]Hello[/RUN:2][TAG:3]'']"
proof -
  let ?ps = "[''<w:p><w:r><w:t>Hello</w:t></w:r></w:p>'']"
  have m: "RunPiece 2 ''Hello'' \<in> set (concat (paragraph_pieces ?ps))" by code_simp
  have k: "map fst (snd (replaceTagsWithIds ?ps)) = [1, 2, 3]" by code_simp
  have t: "map simplifiedText (fst (replaceTagsWithIds ?ps)) = [''[TAG:1][RUN:2]Hello[/RUN:2][TAG:3]'']"
    by code_simp
  from replaceTagsWithIds_ids [of ?ps] m
  have "length (filter (\<lambda>e. fst e = piece_id (RunPiece 2 ''Hello'')) (snd (replaceTagsWithIds ?ps))) = 1"
    by blast
  with m k t show ?thesis by simp
qed

text \<open>
  As the claim states it, C9 fails: marker-shaped text of the document itself is copied
  into the simplified text, where \<^verbatim>\<open>restoreParagraphXml\<close> reads it as a marker, and its
  ID need not have an entry.
\<close>

theorem marker_in_text_counterexample:
  "99 \<in> set (referenced_ids (simplifiedText (hd (fst (replaceTagsWithIds
      [''<w:p><w:r><w:t>[TAG:99]</w:t></w:r></w:p>''])))))
   \<and> map_of (snd (replaceTagsWithIds [''<w:p><w:r><w:t>[TAG:99]</w:t></w:r></w:p>''])) 99 = None"
  by code_simp

section \<open>Parsing the reply to a batch\<close>

subsection \<open>Trimming\<close>

lemma dropWhile_decomp: "\<exists>a. s = a @ dropWhile P s \<and> list_all P a"
proof -
  have "s = takeWhile P s @ dropWhile P s" by simp
  moreover have "list_all P (takeWhile P s)"
    by (simp add: list_all_iff) (meson set_takeWhileD)
  ultimately show ?thesis by blast
qed

lemma trim_decomp: "\<exists>a b. s = a @ trim s @ b \<and> list_all is_space a \<and> list_all is_space b"
proof -
  obtain a where a: "s = a @ dropWhile is_space s" "list_all is_space a"
    using dropWhile_decomp by blast
  let ?t = "dropWhile is_space s"
  obtain b where b: "rev ?t = b @ dropWhile is_space (rev ?t)" "list_all is_space b"
    using dropWhile_decomp by blast
  have "?t = rev (b @ dropWhile is_space (rev ?t))" using b(1) by (metis rev_rev_ident)
  then have "?t = trim s @ rev b" by (simp add: trim_def)
  with a have "s = a @ trim s @ rev b" by simp
  moreover have "list_all is_space (rev b)" using b(2) by (simp add: list_all_iff)
  ultimately show ?thesis using a(2) by blast
qed

lemma dropWhile_hd: "dropWhile P s \<noteq> [] \<Longrightarrow> \<not> P (hd (dropWhile P s))"
  by (metis hd_dropWhile)

lemma trim_ends: "trim s \<noteq> [] \<Longrightarrow> \<not> is_space (hd (trim s)) \<and> \<not> is_space (last (trim s))"
proof -
  assume n: "trim s \<noteq> []"
  let ?t = "dropWhile is_space s"
  let ?u = "dropWhile is_space (rev ?t)"
  have u: "?u \<noteq> []" using n by (simp add: trim_def)
  then have 1: "\<not> is_space (hd ?u)" by (rule dropWhile_hd)
  have "last (trim s) = hd ?u" using u by (simp add: trim_def last_rev)
  with 1 have l: "\<not> is_space (last (trim s))" by simp
  have t: "?t \<noteq> []" using u by (metis dropWhile.simps(1) rev.simps(1))
  then have h: "\<not> is_space (hd ?t)" by (rule dropWhile_hd)
  obtain b where b: "rev ?t = b @ ?u" using dropWhile_decomp by blast
  then have "?t = rev ?u @ rev b" by (metis rev_append rev_rev_ident)
  then have "hd ?t = hd (rev ?u)" using u by (metis hd_append2 rev_is_Nil_conv)
  with h have "\<not> is_space (hd (trim s))" by (simp add: trim_def)
  with l show ?thesis by simp
qed

subsection \<open>Parsing a response\<close>

lemma find_index: "find (\<lambda>c. index c = k) batch = Some original \<Longrightarrow> original \<in> set batch \<and> index original = k"
  by (metis (mono_tags, lifting) find_Some_iff nth_mem)

lemma find_none: "find (\<lambda>c. index c = k) batch = None \<longleftrightarrow> k \<notin> index ` set batch"
  by (auto simp: find_None_iff)

lemma parse_step_none:
  "find (\<lambda>c. index c = parseInt idStr) batch = None \<Longrightarrow>
   parse_step batch (rs0, f0) (pre, whole, idStr, body) = (rs0, f0)"
  by (simp add: parse_step_def)

lemma parse_step_some:
  "find (\<lambda>c. index c = parseInt idStr) batch = Some original \<Longrightarrow>
   parse_step batch (rs0, f0) (pre, whole, idStr, body)
     = (rs0 @ [translated_of original body], f0 @ [parseInt idStr])"
  by (simp add: parse_step_def translated_of_def Let_def)

lemma index_translated_of [simp]: "index (translated_of original body) = index original"
  by (simp add: translated_of_def)

lemma parse_fold:
  assumes "foldl (parse_step batch) (rs0, f0) segs = (rs, f)"
  shows "set f = set f0 \<union> (index ` set batch \<inter> seg_ids segs)
       \<and> index ` set rs = index ` set rs0 \<union> (index ` set batch \<inter> seg_ids segs)
       \<and> set rs0 \<subseteq> set rs
       \<and> (\<forall>pre whole idStr body original. (pre, whole, idStr, body) \<in> set segs \<longrightarrow>
             find (\<lambda>c. index c = parseInt idStr) batch = Some original \<longrightarrow>
             translated_of original body \<in> set rs)"
  using assms
proof (induction segs arbitrary: rs0 f0)
  case Nil
  then show ?case by (simp add: seg_ids_def)
next
  case (Cons seg segs)
  obtain pre whole idStr body where seg: "seg = (pre, whole, idStr, body)" by (cases seg) auto
  have ids: "seg_ids (seg # segs) = insert (parseInt idStr) (seg_ids segs)"
    by (simp add: seg_ids_def seg)
  show ?case
  proof (cases "find (\<lambda>c. index c = parseInt idStr) batch")
    case None
    from None have nin: "parseInt idStr \<notin> index ` set batch" by (simp add: find_none)
    from Cons.prems parse_step_none [OF None] seg
    have "foldl (parse_step batch) (rs0, f0) segs = (rs, f)" by simp
    from Cons.IH [OF this]
    have ih: "set f = set f0 \<union> (index ` set batch \<inter> seg_ids segs)"
        "index ` set rs = index ` set rs0 \<union> (index ` set batch \<inter> seg_ids segs)"
        "set rs0 \<subseteq> set rs"
        "\<forall>pre whole idStr body original. (pre, whole, idStr, body) \<in> set segs \<longrightarrow>
             find (\<lambda>c. index c = parseInt idStr) batch = Some original \<longrightarrow>
             translated_of original body \<in> set rs"
      by blast+
    have e: "index ` set batch \<inter> seg_ids (seg # segs) = index ` set batch \<inter> seg_ids segs"
      unfolding ids using nin by auto
    have 4: "\<forall>pre whole idStr body original. (pre, whole, idStr, body) \<in> set (seg # segs) \<longrightarrow>
             find (\<lambda>c. index c = parseInt idStr) batch = Some original \<longrightarrow>
             translated_of original body \<in> set rs"
      using ih(4) None seg by auto
    show ?thesis unfolding e using ih(1-3) 4 by blast
  next
    case (Some original)
    then have o: "original \<in> set batch" "index original = parseInt idStr"
      using find_index by blast+
    from Cons.prems parse_step_some [OF Some] seg
    have "foldl (parse_step batch) (rs0 @ [translated_of original body], f0 @ [parseInt idStr]) segs = (rs, f)"
      by simp
    from Cons.IH [OF this]
    have ih: "set f = set (f0 @ [parseInt idStr]) \<union> (index ` set batch \<inter> seg_ids segs)"
        "index ` set rs = index ` set (rs0 @ [translated_of original body]) \<union> (index ` set batch \<inter> seg_ids segs)"
        "set (rs0 @ [translated_of original body]) \<subseteq> set rs"
        "\<forall>pre whole idStr body original. (pre, whole, idStr, body) \<in> set segs \<longrightarrow>
             find (\<lambda>c. index c = parseInt idStr) batch = Some original \<longrightarrow>
             translated_of original body \<in> set rs"
      by blast+
    have e: "index ` set batch \<inter> seg_ids (seg # segs)
           = insert (parseInt idStr) (index ` set batch \<inter> seg_ids segs)"
      unfolding ids using o by force
    have 1: "set f = set f0 \<union> (index ` set batch \<inter> seg_ids (seg # segs))"
      unfolding e using ih(1) by auto
    have 2: "index ` set rs = index ` set rs0 \<union> (index ` set batch \<inter> seg_ids (seg # segs))"
      unfolding e using ih(2) o by auto
    have 3: "set rs0 \<subseteq> set rs" using ih(3) by auto
    have 4: "\<forall>pre whole idStr body original. (pre, whole, idStr, body) \<in> set (seg # segs) \<longrightarrow>
             find (\<lambda>c. index c = parseInt idStr) batch = Some original \<longrightarrow>
             translated_of original body \<in> set rs"
      using ih(3,4) Some seg by auto
    from 1 2 3 4 show ?thesis by blast
  qed
qed

lemma parse_response_facts:
  "set (missing (parse_response batch resultText))
     = {c \<in> set batch. index c \<notin> set (reply_ids (Reply resultText))}
   \<and> missing (parse_response batch resultText)
     = filter (\<lambda>c. index c \<notin> set (reply_ids (Reply resultText))) batch
   \<and> index ` set (translated (parse_response batch resultText))
     = index ` set batch \<inter> set (reply_ids (Reply resultText))
   \<and> (\<forall>pre whole idStr body original.
         (pre, whole, idStr, body) \<in> set (fst (gmatch m_response [] resultText)) \<longrightarrow>
         find (\<lambda>c. index c = parseInt idStr) batch = Some original \<longrightarrow>
         translated_of original body \<in> set (translated (parse_response batch resultText)))"
proof -
  let ?segs = "fst (gmatch m_response [] resultText)"
  obtain rs f where fold: "foldl (parse_step batch) ([], []) ?segs = (rs, f)"
    by (cases "foldl (parse_step batch) ([], []) ?segs")
  have ids: "set (reply_ids (Reply resultText)) = seg_ids ?segs"
    by (simp add: reply_ids_def seg_ids_def)
  have br: "parse_response batch resultText
      = \<lparr>translated = rs, missing = filter (\<lambda>chunk. index chunk \<notin> set f) batch\<rparr>"
    using fold by (simp add: parse_response_def)
  from parse_fold [OF fold]
  have f: "set f = index ` set batch \<inter> seg_ids ?segs"
    and r: "index ` set rs = index ` set batch \<inter> seg_ids ?segs"
    and t: "\<forall>pre whole idStr body original. (pre, whole, idStr, body) \<in> set ?segs \<longrightarrow>
             find (\<lambda>c. index c = parseInt idStr) batch = Some original \<longrightarrow>
             translated_of original body \<in> set rs"
    by auto
  have m: "filter (\<lambda>chunk. index chunk \<notin> set f) batch
         = filter (\<lambda>c. index c \<notin> set (reply_ids (Reply resultText))) batch"
    unfolding f ids by (rule filter_cong) auto
  show ?thesis
    unfolding br using m r t ids by auto
qed

section \<open>The result array\<close>

subsection \<open>Writing into the result array\<close>

lemma length_arr_set: "length xs \<le> length (arr_set xs i v)"
  by (simp add: arr_set_def)

lemma length_arr_set_in: "i < length xs \<Longrightarrow> length (arr_set xs i v) = length xs"
  by (simp add: arr_set_def)

lemma arr_set_at: "i < length (arr_set xs i v) \<and> arr_set xs i v ! i = Some v"
  by (simp add: arr_set_def nth_append)

lemma arr_set_other: "k < length xs \<Longrightarrow> k \<noteq> i \<Longrightarrow> arr_set xs i v ! k = xs ! k"
  by (simp add: arr_set_def nth_append)

lemma arr_set_cases:
  "k < length (arr_set xs i v) \<Longrightarrow> arr_set xs i v ! k = Some c \<Longrightarrow>
   (k = i \<and> c = v) \<or> (k < length xs \<and> xs ! k = Some c)"
  by (auto simp: arr_set_def nth_append nth_Cons nth_list_update split: if_splits nat.splits)

lemma store_all_append: "store_all r (a @ b) = store_all (store_all r a) b"
  by (simp add: store_all_def)

lemma store_all_Nil [simp]: "store_all r [] = r"
  by (simp add: store_all_def)

lemma store_all_Cons: "store_all r (c # cs) = store_all (arr_set r (index c) c) cs"
  by (simp add: store_all_def)

lemma store_all_snoc: "store_all r (cs @ [c]) = arr_set (store_all r cs) (index c) c"
  by (simp add: store_all_def)

lemma length_store_all: "length r \<le> length (store_all r cs)"
proof (induction cs rule: rev_induct)
  case Nil
  show ?case by simp
next
  case (snoc c cs)
  have "length (store_all r cs) \<le> length (store_all r (cs @ [c]))"
    unfolding store_all_snoc by (rule length_arr_set)
  with snoc show ?case by simp
qed

lemma length_store_all_in:
  "\<forall>c \<in> set cs. index c < length r \<Longrightarrow> length (store_all r cs) = length r"
proof (induction cs rule: rev_induct)
  case Nil
  show ?case by simp
next
  case (snoc c cs)
  then have l: "length (store_all r cs) = length r" and i: "index c < length r" by auto
  show ?case unfolding store_all_snoc using l i by (simp add: length_arr_set_in)
qed

lemma store_all_other:
  "k < length r \<Longrightarrow> k \<notin> index ` set cs \<Longrightarrow> store_all r cs ! k = r ! k"
proof (induction cs rule: rev_induct)
  case Nil
  show ?case by simp
next
  case (snoc c cs)
  then have ih: "store_all r cs ! k = r ! k" and ne: "k \<noteq> index c" by auto
  have "k < length (store_all r cs)" using snoc.prems(1) length_store_all [of r cs] by simp
  then show ?case unfolding store_all_snoc using ih ne by (simp add: arr_set_other)
qed

lemma store_all_last:
  "c \<in> set cs \<Longrightarrow> (\<forall>c' \<in> set cs. index c' = index c \<longrightarrow> c' = c) \<Longrightarrow>
   index c < length (store_all r cs) \<and> store_all r cs ! index c = Some c"
proof (induction cs rule: rev_induct)
  case Nil
  then show ?case by simp
next
  case (snoc x cs)
  show ?case
  proof (cases "index x = index c")
    case True
    with snoc.prems(2) have "x = c" by simp
    then show ?thesis unfolding store_all_snoc using arr_set_at [of "index c" "store_all r cs" c] by simp
  next
    case False
    with snoc.prems have "c \<in> set cs" by auto
    with snoc have ih: "index c < length (store_all r cs)" "store_all r cs ! index c = Some c" by auto
    have "index c < length (arr_set (store_all r cs) (index x) x)"
      using ih(1) length_arr_set [of "store_all r cs" "index x" x] by simp
    then show ?thesis unfolding store_all_snoc using ih False by (simp add: arr_set_other)
  qed
qed

lemma store_all_filled:
  "c \<in> set cs \<Longrightarrow> index c < length (store_all r cs) \<and> store_all r cs ! index c \<noteq> None"
proof (induction cs rule: rev_induct)
  case Nil
  then show ?case by simp
next
  case (snoc x cs)
  show ?case
  proof (cases "index x = index c")
    case True
    then show ?thesis unfolding store_all_snoc using arr_set_at [of "index x" "store_all r cs" x] by simp
  next
    case False
    with snoc.prems have "c \<in> set cs" by auto
    with snoc have ih: "index c < length (store_all r cs)" "store_all r cs ! index c \<noteq> None" by auto
    have "index c < length (arr_set (store_all r cs) (index x) x)"
      using ih(1) length_arr_set [of "store_all r cs" "index x" x] by simp
    then show ?thesis unfolding store_all_snoc using ih False by (simp add: arr_set_other)
  qed
qed

lemma store_all_keeps:
  "k < length r \<Longrightarrow> r ! k \<noteq> None \<Longrightarrow> store_all r cs ! k \<noteq> None"
proof (induction cs rule: rev_induct)
  case Nil
  then show ?case by simp
next
  case (snoc x cs)
  then have ih: "store_all r cs ! k \<noteq> None" by simp
  have kl: "k < length (store_all r cs)" using snoc.prems(1) length_store_all [of r cs] by simp
  show ?case
  proof (cases "k = index x")
    case True
    then show ?thesis unfolding store_all_snoc using arr_set_at [of "index x" "store_all r cs" x] by simp
  next
    case False
    then show ?thesis unfolding store_all_snoc using ih kl by (simp add: arr_set_other)
  qed
qed

lemma store_all_index:
  assumes "\<forall>k < length r. \<forall>c. r ! k = Some c \<longrightarrow> index c = k"
  shows "\<forall>k < length (store_all r cs). \<forall>c. store_all r cs ! k = Some c \<longrightarrow> index c = k"
proof (induction cs rule: rev_induct)
  case Nil
  from assms show ?case by simp
next
  case (snoc x cs)
  show ?case
  proof (intro allI impI)
    fix k c
    assume k: "k < length (store_all r (cs @ [x]))" and c: "store_all r (cs @ [x]) ! k = Some c"
    from arr_set_cases [of k "store_all r cs" "index x" x c] k c
    have "(k = index x \<and> c = x) \<or> (k < length (store_all r cs) \<and> store_all r cs ! k = Some c)"
      unfolding store_all_snoc by blast
    with snoc show "index c = k" by auto
  qed
qed

subsection \<open>One batch, one wave\<close>

lemma absent_in_append: "absent_in c (a @ b) \<longleftrightarrow> absent_in c a \<and> absent_in c b"
  by (auto simp: absent_in_def)

lemma absent_in_Nil [simp]: "absent_in c []"
  by (simp add: absent_in_def)

lemma absent_in_single: "absent_in c [(b, r)] \<longleftrightarrow> (c \<in> set b \<longrightarrow> index c \<notin> set (reply_ids r))"
  by (simp add: absent_in_def)

lemma translateBatch_effect:
  "translateBatch w st batch = (out, st') \<Longrightarrow> batch_effect batch st out st'"
proof -
  assume t: "translateBatch w st batch = (out, st')"
  show ?thesis
  proof (cases "batch = []")
    case True
    with t show ?thesis by (auto simp: translateBatch_def batch_effect_def)
  next
    case False
    show ?thesis
    proof (cases "backend w (calls st) (inputContent batch)")
      case SessionFailed
      with t False show ?thesis by (auto simp: translateBatch_def batch_effect_def)
    next
      case PromptFailed
      with t False have o: "out = Inr \<lparr>translated = [], missing = batch\<rparr>"
        and s: "st' = st\<lparr>calls := calls st + 1, sent := sent st @ [(batch, PromptFailed)]\<rparr>"
        by (auto simp: translateBatch_def)
      show ?thesis unfolding o s batch_effect_def
        by (simp add: absent_in_single)
    next
      case (Reply resultText)
      with t False have o: "out = Inr (parse_response batch resultText)"
        and s: "st' = st\<lparr>calls := calls st + 1, sent := sent st @ [(batch, Reply resultText)]\<rparr>"
        by (auto simp: translateBatch_def)
      note f = parse_response_facts [of batch resultText]
      have m: "set (missing (parse_response batch resultText))
          = {c \<in> set batch. index c \<notin> set (reply_ids (Reply resultText))}"
        using f by (rule conjunct1)
      have tr: "index ` set (translated (parse_response batch resultText))
          = index ` set batch \<inter> set (reply_ids (Reply resultText))"
        using f [THEN conjunct2, THEN conjunct2] by (rule conjunct1)
      have 1: "set (missing (parse_response batch resultText)) \<subseteq> set batch" using m by auto
      have 2: "index ` set (translated (parse_response batch resultText)) \<subseteq> index ` set batch"
        using tr by auto
      have 3: "\<forall>c \<in> set batch. c \<in> set (missing (parse_response batch resultText))
                  \<or> index c \<in> index ` set (translated (parse_response batch resultText))"
        unfolding m tr by auto
      have 4: "\<forall>c \<in> set batch. absent_in c [(batch, Reply resultText)]
                  \<longrightarrow> c \<in> set (missing (parse_response batch resultText))"
        unfolding m by (auto simp: absent_in_single)
      show ?thesis unfolding o s batch_effect_def
        using 1 2 3 4 by simp
    qed
  qed
qed

lemma translateBatch_no_session_failure:
  "\<forall>k p. backend w k p \<noteq> SessionFailed \<Longrightarrow> \<exists>br st'. translateBatch w st batch = (Inr br, st')"
  by (cases "backend w (calls st) (inputContent batch)") (auto simp: translateBatch_def)

lemma run_wave_effect:
  "run_wave w st batches = (out, st') \<Longrightarrow> wave_effect batches st out st'"
proof (induction batches arbitrary: st out st')
  case Nil
  then show ?case by (auto simp: wave_effect_def)
next
  case (Cons batch batches)
  obtain r st1 where tb: "translateBatch w st batch = (r, st1)"
    by (cases "translateBatch w st batch")
  obtain rs st2 where rw: "run_wave w st1 batches = (rs, st2)"
    by (cases "run_wave w st1 batches")
  from Cons.prems tb rw have st': "st' = st2"
    and out: "out = (case r of Inl e \<Rightarrow> Inl e
                    | Inr br \<Rightarrow> (case rs of Inl e \<Rightarrow> Inl e | Inr brs \<Rightarrow> Inr (br # brs)))"
    by auto
  from translateBatch_effect [OF tb] have be: "batch_effect batch st r st1" .
  from Cons.IH [OF rw] have we: "wave_effect batches st1 rs st2" .
  from be have p1: "progress st1 = progress st" "calls st \<le> calls st1"
    by (auto simp: batch_effect_def)
  from we obtain ext2 where e2: "progress st2 = progress st1" "calls st1 \<le> calls st2"
      "sent st2 = sent st1 @ ext2" "fst ` set ext2 \<subseteq> set batches"
      and o2: "(case rs of
           Inl e \<Rightarrow> e = SessionError
         | Inr brs \<Rightarrow>
             set (concat (map missing brs)) \<subseteq> set (concat batches) \<and>
             index ` set (concat (map translated brs)) \<subseteq> index ` set (concat batches) \<and>
             (\<forall>c \<in> set (concat batches).
                c \<in> set (concat (map missing brs)) \<or>
                index c \<in> index ` set (concat (map translated brs))) \<and>
             (\<forall>c \<in> set (concat batches). absent_in c ext2 \<longrightarrow> c \<in> set (concat (map missing brs))))"
    unfolding wave_effect_def by blast
  show ?case
  proof (cases r)
    case (Inl e)
    with be have e: "e = SessionError" "sent st1 = sent st" by (auto simp: batch_effect_def)
    have "sent st2 = sent st @ ext2" using e2(3) e(2) by simp
    moreover have "fst ` set ext2 \<subseteq> set (batch # batches)" using e2(4) by auto
    ultimately show ?thesis
      unfolding wave_effect_def st' out using Inl e(1) p1 e2(1,2) by auto
  next
    case (Inr br)
    with be obtain ext1 where e1: "sent st1 = sent st @ ext1" "fst ` set ext1 \<subseteq> {batch}"
        "set (missing br) \<subseteq> set batch"
        "index ` set (translated br) \<subseteq> index ` set batch"
        "\<forall>c \<in> set batch. c \<in> set (missing br) \<or> index c \<in> index ` set (translated br)"
        "\<forall>c \<in> set batch. absent_in c ext1 \<longrightarrow> c \<in> set (missing br)"
      by (auto simp: batch_effect_def)
    have s: "sent st2 = sent st @ (ext1 @ ext2)" using e1(1) e2(3) by simp
    have f: "fst ` set (ext1 @ ext2) \<subseteq> set (batch # batches)" using e1(2) e2(4) by auto
    show ?thesis
    proof (cases rs)
      case (Inl e)
      with o2 have "e = SessionError" by simp
      with s f show ?thesis
        unfolding wave_effect_def st' out using Inl Inr p1 e2(1,2) by auto
    next
      case (Inr brs)
      with o2 have b: "set (concat (map missing brs)) \<subseteq> set (concat batches)"
        "index ` set (concat (map translated brs)) \<subseteq> index ` set (concat batches)"
        "\<forall>c \<in> set (concat batches).
                c \<in> set (concat (map missing brs)) \<or>
                index c \<in> index ` set (concat (map translated brs))"
        "\<forall>c \<in> set (concat batches). absent_in c ext2 \<longrightarrow> c \<in> set (concat (map missing brs))"
        by auto
      have sc: "\<And>f. set (concat (map f (br # brs))) = set (f br) \<union> set (concat (map f brs))"
        by simp
      have sb: "set (concat (batch # batches)) = set batch \<union> set (concat batches)" by simp
      have 1: "set (concat (map missing (br # brs))) \<subseteq> set (concat (batch # batches))"
        unfolding sc sb using e1(3) b(1) by blast
      have 2: "index ` set (concat (map translated (br # brs))) \<subseteq> index ` set (concat (batch # batches))"
        unfolding sc sb image_Un using e1(4) b(2) by blast
      have 3: "\<forall>c \<in> set (concat (batch # batches)).
                c \<in> set (concat (map missing (br # brs))) \<or>
                index c \<in> index ` set (concat (map translated (br # brs)))"
        unfolding sc sb image_Un using e1(5) b(3) by blast
      have 4: "\<forall>c \<in> set (concat (batch # batches)). absent_in c (ext1 @ ext2)
                 \<longrightarrow> c \<in> set (concat (map missing (br # brs)))"
        unfolding sc sb absent_in_append using e1(6) b(4) by blast
      have o: "out = Inr (br # brs)" using out \<open>r = Inr br\<close> Inr by simp
      show ?thesis
        unfolding wave_effect_def st' o using s f 1 2 3 4 p1 e2(1,2) by auto
    qed
  qed
qed

lemma run_wave_no_session_failure:
  assumes "\<forall>k p. backend w k p \<noteq> SessionFailed"
  shows "\<exists>brs st'. run_wave w st batches = (Inr brs, st')"
proof (induction batches arbitrary: st)
  case Nil
  show ?case by simp
next
  case (Cons batch batches)
  from translateBatch_no_session_failure [OF assms] obtain br st1
    where "translateBatch w st batch = (Inr br, st1)" by blast
  moreover from Cons obtain brs st2 where "run_wave w st1 batches = (Inr brs, st2)" by blast
  ultimately show ?case by simp
qed


subsection \<open>The loop over the waves\<close>

lemma loop_effect_done: "loop_effect [] st results am (Inr (results, am)) st"
  unfolding loop_effect_def
  apply (rule conjI)
   apply simp
  apply (rule exI [of _ "[]"])
  apply simp
  done

lemma loop_effect_abort: "loop_effect pending st results am (Inl Aborted) st"
  unfolding loop_effect_def by simp

lemma loop_effect_fail:
  assumes "wave_effect bs st (Inl e) st'" "set (concat bs) \<subseteq> set pending"
  shows "loop_effect pending st results am (Inl e) st'"
proof -
  from assms(1) obtain ext where e: "calls st \<le> calls st'" "sent st' = sent st @ ext"
      "fst ` set ext \<subseteq> set bs" "e = SessionError"
    unfolding wave_effect_def by auto
  have "\<forall>(b, r) \<in> set ext. set b \<subseteq> set pending"
  proof (clarify)
    fix b r x assume "(b, r) \<in> set ext" "x \<in> set b"
    then have "b \<in> set bs" using e(3) by force
    with \<open>x \<in> set b\<close> have "x \<in> set (concat bs)" by auto
    with assms(2) show "x \<in> set pending" by blast
  qed
  with e show ?thesis unfolding loop_effect_def by auto
qed

lemma loop_effect_step:
  assumes w: "wave_effect bs st (Inr brs) st1"
    and l: "loop_effect pending' st1 (store_all results (concat (map translated brs)))
              (am @ concat (map missing brs)) out st'"
    and p: "set pending = set (concat bs) \<union> set pending'"
  shows "loop_effect pending st results am out st'"
proof -
  let ?t1 = "concat (map translated brs)" and ?m1 = "concat (map missing brs)"
  from w obtain ext1 where w1: "calls st \<le> calls st1" "sent st1 = sent st @ ext1"
      "fst ` set ext1 \<subseteq> set bs"
      "set ?m1 \<subseteq> set (concat bs)" "index ` set ?t1 \<subseteq> index ` set (concat bs)"
      "\<forall>c \<in> set (concat bs). c \<in> set ?m1 \<or> index c \<in> index ` set ?t1"
      "\<forall>c \<in> set (concat bs). absent_in c ext1 \<longrightarrow> c \<in> set ?m1"
    unfolding wave_effect_def by auto
  from l obtain ext2 where l1: "calls st1 \<le> calls st'" "sent st' = sent st1 @ ext2"
      "\<forall>(b, r) \<in> set ext2. set b \<subseteq> set pending'"
      and l2: "(case out of
           Inl e \<Rightarrow> e = Aborted \<or> e = SessionError
         | Inr (results', am') \<Rightarrow>
             (\<exists>ts new. results' = store_all (store_all results ?t1) ts \<and> am' = (am @ ?m1) @ new \<and>
                set new \<subseteq> set pending' \<and> index ` set ts \<subseteq> index ` set pending' \<and>
                (\<forall>c \<in> set pending'. c \<in> set new \<or> index c \<in> index ` set ts) \<and>
                (\<forall>c \<in> set pending'. absent_in c ext2 \<longrightarrow> c \<in> set new)))"
    unfolding loop_effect_def by auto
  have c: "calls st \<le> calls st'" using w1(1) l1(1) by simp
  have s: "sent st' = sent st @ (ext1 @ ext2)" using w1(2) l1(2) by simp
  have b1: "\<forall>(b, r) \<in> set ext1. set b \<subseteq> set pending"
  proof (clarify)
    fix b r x assume "(b, r) \<in> set ext1" "x \<in> set b"
    then have "b \<in> set bs" using w1(3) by force
    with \<open>x \<in> set b\<close> have "x \<in> set (concat bs)" by auto
    with p show "x \<in> set pending" by blast
  qed
  have b2: "\<forall>(b, r) \<in> set ext2. set b \<subseteq> set pending" using l1(3) p by blast
  have b: "\<forall>(b, r) \<in> set (ext1 @ ext2). set b \<subseteq> set pending" using b1 b2 by auto
  show ?thesis
  proof (cases out)
    case (Inl e)
    with l2 have "e = Aborted \<or> e = SessionError" by simp
    with c s b Inl show ?thesis unfolding loop_effect_def by auto
  next
    case (Inr ra)
    obtain results' am' where ra: "ra = (results', am')" by (cases ra)
    from l2 Inr ra obtain ts new where
      n: "results' = store_all (store_all results ?t1) ts" "am' = (am @ ?m1) @ new"
        "set new \<subseteq> set pending'" "index ` set ts \<subseteq> index ` set pending'"
        "\<forall>c \<in> set pending'. c \<in> set new \<or> index c \<in> index ` set ts"
        "\<forall>c \<in> set pending'. absent_in c ext2 \<longrightarrow> c \<in> set new"
      by auto
    have 1: "results' = store_all results (?t1 @ ts)" using n(1) by (simp add: store_all_append)
    have 2: "am' = am @ (?m1 @ new)" using n(2) by simp
    have 3: "set (?m1 @ new) \<subseteq> set pending" using w1(4) n(3) p by auto
    have 4: "index ` set (?t1 @ ts) \<subseteq> index ` set pending"
      unfolding p set_append image_Un using w1(5) n(4) by blast
    have 5: "\<forall>c \<in> set pending. c \<in> set (?m1 @ new) \<or> index c \<in> index ` set (?t1 @ ts)"
      unfolding p set_append image_Un using w1(6) n(5) by blast
    have 6: "\<forall>c \<in> set pending. absent_in c (ext1 @ ext2) \<longrightarrow> c \<in> set (?m1 @ new)"
      unfolding p set_append absent_in_append using w1(7) n(6) by blast
    have "\<exists>ts new. results' = store_all results ts \<and> am' = am @ new \<and>
                set new \<subseteq> set pending \<and> index ` set ts \<subseteq> index ` set pending \<and>
                (\<forall>c \<in> set pending. c \<in> set new \<or> index c \<in> index ` set ts) \<and>
                (\<forall>c \<in> set pending. absent_in c (ext1 @ ext2) \<longrightarrow> c \<in> set new)"
      using 1 2 3 4 5 6 by blast
    with c s b Inr ra show ?thesis unfolding loop_effect_def by auto
  qed
qed

lemma drop_split: "set (concat (drop i xs)) = set (concat (take n (drop i xs))) \<union> set (concat (drop (i + n) xs))"
proof -
  have "drop i xs = take n (drop i xs) @ drop n (drop i xs)"
    by (rule append_take_drop_id [symmetric])
  then have "concat (drop i xs) = concat (take n (drop i xs)) @ concat (drop n (drop i xs))"
    by (metis concat_append)
  moreover have "drop n (drop i xs) = drop (i + n) xs" by (simp add: add.commute)
  ultimately have "concat (drop i xs) = concat (take n (drop i xs)) @ concat (drop (i + n) xs)"
    by simp
  then show ?thesis by (metis set_append)
qed

lemma wave_loop_effect:
  assumes run: "wave_loop w conc batches i st results am = Some res"
  shows "loop_effect (concat (drop i batches)) st results am (fst res) (snd res)"
proof (rule wave_loop.raw_induct
    [where P = "\<lambda>w conc batches i st results am res.
       loop_effect (concat (drop i batches)) st results am (fst res) (snd res)", OF _ run])
  fix f w conc batches i st results am res
  assume ih: "\<And>(w::world) (conc::nat) batches i st results am res.
      f w conc batches i st results am = Some res \<Longrightarrow>
      loop_effect (concat (drop i batches)) st results am (fst res) (snd res)"
  assume body: "(if i < length batches
      then if aborted w (calls st) then Some (Inl Aborted, st)
           else case run_wave w st (take conc (drop i batches)) of
                (Inl e, st') \<Rightarrow> Some (Inl e, st')
                | (Inr batchResults, st') \<Rightarrow>
                    f w conc batches (i + conc) st'
                     (store_all results (concat (map translated batchResults)))
                     (am @ concat (map missing batchResults))
      else Some (Inr (results, am), st)) = Some res"
  show "loop_effect (concat (drop i batches)) st results am (fst res) (snd res)"
  proof (cases "i < length batches")
    case False
    with body have r: "res = (Inr (results, am), st)" by simp
    from False have d: "drop i batches = []" by simp
    have "loop_effect (concat []) st results am (Inr (results, am)) st"
      by (simp add: loop_effect_done)
    then show ?thesis unfolding r d by simp
  next
    case True
    show ?thesis
    proof (cases "aborted w (calls st)")
      case True
      with \<open>i < length batches\<close> body have "res = (Inl Aborted, st)" by simp
      then show ?thesis by (simp add: loop_effect_abort)
    next
      case False
      obtain out st1 where rw: "run_wave w st (take conc (drop i batches)) = (out, st1)"
        by (cases "run_wave w st (take conc (drop i batches))")
      from run_wave_effect [OF rw] have we: "wave_effect (take conc (drop i batches)) st out st1" .
      have sub: "set (concat (take conc (drop i batches))) \<subseteq> set (concat (drop i batches))"
        using drop_split [of i batches conc] by blast
      show ?thesis
      proof (cases out)
        case (Inl e)
        with True False rw body have "res = (Inl e, st1)" by simp
        moreover have "loop_effect (concat (drop i batches)) st results am (Inl e) st1"
          using we sub unfolding Inl by (rule loop_effect_fail)
        ultimately show ?thesis by simp
      next
        case (Inr brs)
        with True False rw body
        have "f w conc batches (i + conc) st1
                (store_all results (concat (map translated brs)))
                (am @ concat (map missing brs)) = Some res"
          by simp
        from ih [OF this]
        have l: "loop_effect (concat (drop (i + conc) batches)) st1
                (store_all results (concat (map translated brs)))
                (am @ concat (map missing brs)) (fst res) (snd res)" .
        have w: "wave_effect (take conc (drop i batches)) st (Inr brs) st1"
          using we unfolding Inr .
        show ?thesis
          by (rule loop_effect_step [OF w l drop_split])
      qed
    qed
  qed
qed


lemma wave_loop_returns:
  assumes "0 < conc"
  shows "\<exists>res. wave_loop w conc batches i st results am = Some res"
proof (induction "length batches - i" arbitrary: i st results am rule: less_induct)
  case less
  show ?case
  proof (cases "i < length batches")
    case False
    then show ?thesis by (subst wave_loop.simps) simp
  next
    case True
    show ?thesis
    proof (cases "aborted w (calls st)")
      case True
      with \<open>i < length batches\<close> show ?thesis by (subst wave_loop.simps) simp
    next
      case False
      obtain out st1 where rw: "run_wave w st (take conc (drop i batches)) = (out, st1)"
        by (cases "run_wave w st (take conc (drop i batches))")
      show ?thesis
      proof (cases out)
        case (Inl e)
        with True False rw show ?thesis by (subst wave_loop.simps) simp
      next
        case (Inr brs)
        have "length batches - (i + conc) < length batches - i" using True assms by simp
        from less [OF this] obtain res where
          "wave_loop w conc batches (i + conc) st1
             (store_all results (concat (map translated brs)))
             (am @ concat (map missing brs)) = Some res"
          by blast
        with True False rw Inr show ?thesis by (subst wave_loop.simps) simp
      qed
    qed
  qed
qed

lemma wave_loop_succeeds:
  assumes "0 < conc" "\<forall>k. \<not> aborted w k" "\<forall>k p. backend w k p \<noteq> SessionFailed"
  shows "\<exists>results' am' st'. wave_loop w conc batches i st results am = Some (Inr (results', am'), st')"
proof (induction "length batches - i" arbitrary: i st results am rule: less_induct)
  case less
  show ?case
  proof (cases "i < length batches")
    case False
    then show ?thesis by (subst wave_loop.simps) simp
  next
    case True
    from run_wave_no_session_failure [OF assms(3)] obtain brs st1
      where rw: "run_wave w st (take conc (drop i batches)) = (Inr brs, st1)"
      by blast
    have "length batches - (i + conc) < length batches - i" using True assms(1) by simp
    from less [OF this] obtain results' am' st' where
      "wave_loop w conc batches (i + conc) st1
         (store_all results (concat (map translated brs)))
         (am @ concat (map missing brs)) = Some (Inr (results', am'), st')"
      by blast
    with True rw assms(2) show ?thesis by (subst wave_loop.simps) simp
  qed
qed

lemma concat_singletons: "concat (map (\<lambda>c. [c]) xs) = xs"
  by (induction xs) auto

lemma loop_effect_emit:
  "loop_effect pending (emit options msg st) results am out st' \<Longrightarrow>
   loop_effect pending st results am out st'"
  by (simp add: loop_effect_def emit_def split: if_splits)

lemma loop_effect_trans:
  assumes l1: "loop_effect pending st results [] (Inr (results1, am1)) st1"
    and l2: "loop_effect am1 st1 results1 [] out st'"
  shows "loop_effect pending st results [] out st'"
proof -
  from l1 obtain ext1 ts1 where a: "calls st \<le> calls st1" "sent st1 = sent st @ ext1"
      "\<forall>(b, r) \<in> set ext1. set b \<subseteq> set pending"
      "results1 = store_all results ts1" "set am1 \<subseteq> set pending"
      "index ` set ts1 \<subseteq> index ` set pending"
      "\<forall>c \<in> set pending. c \<in> set am1 \<or> index c \<in> index ` set ts1"
      "\<forall>c \<in> set pending. absent_in c ext1 \<longrightarrow> c \<in> set am1"
    unfolding loop_effect_def by auto
  from l2 obtain ext2 where b: "calls st1 \<le> calls st'" "sent st' = sent st1 @ ext2"
      "\<forall>(b, r) \<in> set ext2. set b \<subseteq> set am1"
      and b2: "(case out of
           Inl e \<Rightarrow> e = Aborted \<or> e = SessionError
         | Inr (results', am') \<Rightarrow>
             (\<exists>ts new. results' = store_all results1 ts \<and> am' = [] @ new \<and>
                set new \<subseteq> set am1 \<and> index ` set ts \<subseteq> index ` set am1 \<and>
                (\<forall>c \<in> set am1. c \<in> set new \<or> index c \<in> index ` set ts) \<and>
                (\<forall>c \<in> set am1. absent_in c ext2 \<longrightarrow> c \<in> set new)))"
    unfolding loop_effect_def by auto
  have c: "calls st \<le> calls st'" using a(1) b(1) by simp
  have s: "sent st' = sent st @ (ext1 @ ext2)" using a(2) b(2) by simp
  have e2: "\<forall>(b, r) \<in> set ext2. set b \<subseteq> set pending"
    using b(3) a(5) by blast
  have e: "\<forall>(b, r) \<in> set (ext1 @ ext2). set b \<subseteq> set pending"
    using a(3) e2 by auto
  show ?thesis
  proof (cases out)
    case (Inl e')
    with b2 have "e' = Aborted \<or> e' = SessionError" by simp
    with c s e Inl show ?thesis unfolding loop_effect_def by auto
  next
    case (Inr ra)
    obtain results' am' where ra: "ra = (results', am')" by (cases ra)
    from b2 Inr ra obtain ts2 where
      n: "results' = store_all results1 ts2" "set am' \<subseteq> set am1"
        "index ` set ts2 \<subseteq> index ` set am1"
        "\<forall>c \<in> set am1. c \<in> set am' \<or> index c \<in> index ` set ts2"
        "\<forall>c \<in> set am1. absent_in c ext2 \<longrightarrow> c \<in> set am'"
      by auto
    have 1: "results' = store_all results (ts1 @ ts2)" using n(1) a(4) by (simp add: store_all_append)
    have 3: "set am' \<subseteq> set pending" using n(2) a(5) by blast
    have 4: "index ` set (ts1 @ ts2) \<subseteq> index ` set pending"
      unfolding set_append image_Un using a(6) n(3) a(5) by blast
    have 5: "\<forall>c \<in> set pending. c \<in> set am' \<or> index c \<in> index ` set (ts1 @ ts2)"
      unfolding set_append image_Un using a(7) n(4) by blast
    have 6: "\<forall>c \<in> set pending. absent_in c (ext1 @ ext2) \<longrightarrow> c \<in> set am'"
      unfolding absent_in_append using a(8) n(5) by blast
    have "results' = store_all results (ts1 @ ts2) \<and> am' = [] @ am' \<and>
                set am' \<subseteq> set pending \<and> index ` set (ts1 @ ts2) \<subseteq> index ` set pending \<and>
                (\<forall>c \<in> set pending. c \<in> set am' \<or> index c \<in> index ` set (ts1 @ ts2)) \<and>
                (\<forall>c \<in> set pending. absent_in c (ext1 @ ext2) \<longrightarrow> c \<in> set am')"
      using 1 3 4 5 6 by simp
    then have "\<exists>ts new. results' = store_all results ts \<and> am' = [] @ new \<and>
                set new \<subseteq> set pending \<and> index ` set ts \<subseteq> index ` set pending \<and>
                (\<forall>c \<in> set pending. c \<in> set new \<or> index c \<in> index ` set ts) \<and>
                (\<forall>c \<in> set pending. absent_in c (ext1 @ ext2) \<longrightarrow> c \<in> set new)"
      by blast
    with c s e Inr ra show ?thesis unfolding loop_effect_def by auto
  qed
qed

lemma loop_effect_refl: "loop_effect am st results [] (Inr (results, am)) st"
  unfolding loop_effect_def
  apply (rule conjI)
   apply simp
  apply (rule exI [of _ "[]"])
  apply simp
  apply (rule exI [of _ "[]"])
  apply (simp add: absent_in_def)
  done

lemma retry_loop_effect:
  "retry_loop w options retry st results am = Some res \<Longrightarrow>
   loop_effect am st results [] (fst res) (snd res)"
proof (induction w options retry st results am arbitrary: res rule: retry_loop.induct)
  case (1 w options retry st results am)
  show ?case
  proof (cases "retry \<le> MAX_RETRIES \<and> am \<noteq> []")
    case False
    with 1(2) have "res = (Inr (results, am), st)" by (subst (asm) retry_loop.simps) auto
    then show ?thesis by (simp add: loop_effect_refl)
  next
    case True
    show ?thesis
    proof (cases "aborted w (calls st)")
      case True
      with \<open>retry \<le> MAX_RETRIES \<and> am \<noteq> []\<close> 1(2) have "res = (Inl Aborted, st)"
        by (subst (asm) retry_loop.simps) auto
      then show ?thesis by (simp add: loop_effect_abort)
    next
      case False
      let ?st0 = "emit options (retry_message retry am) st"
      let ?wl = "wave_loop w (concurrency options) (map (\<lambda>c. [c]) am) 0 ?st0 results []"
      from 1(2) True False have body: "(case ?wl of
              None \<Rightarrow> None
            | Some (Inl e, st') \<Rightarrow> Some (Inl e, st')
            | Some (Inr (results', stillMissing), st') \<Rightarrow>
                retry_loop w options (retry + 1) st' results' stillMissing) = Some res"
        by (subst (asm) retry_loop.simps) simp
      then obtain out st1 where wl: "?wl = Some (out, st1)"
        by (cases ?wl) auto
      from wave_loop_effect [OF wl]
      have "loop_effect (concat (drop 0 (map (\<lambda>c. [c]) am))) ?st0 results [] out st1" by simp
      then have le: "loop_effect am st results [] out st1"
        by (simp add: concat_singletons loop_effect_emit)
      show ?thesis
      proof (cases out)
        case (Inl e)
        with body wl have "res = (Inl e, st1)" by simp
        with le Inl show ?thesis by simp
      next
        case (Inr ra)
        obtain results' still where ra: "ra = (results', still)" by (cases ra)
        from body wl Inr ra have rec: "retry_loop w options (retry + 1) st1 results' still = Some res"
          by simp
        from 1(1) [OF True False wl refl Inr ra [symmetric] rec]
        have l2: "loop_effect still st1 results' [] (fst res) (snd res)" .
        from le Inr ra have l1: "loop_effect am st results [] (Inr (results', still)) st1" by simp
        show ?thesis by (rule loop_effect_trans [OF l1 l2])
      qed
    qed
  qed
qed


lemma retry_loop_returns:
  assumes "0 < concurrency options"
  shows "\<exists>res. retry_loop w options retry st results am = Some res"
  using assms
proof (induction w options retry st results am rule: retry_loop.induct)
  case (1 w options retry st results am)
  show ?case
  proof (cases "retry \<le> MAX_RETRIES \<and> am \<noteq> []")
    case False
    then show ?thesis by (subst retry_loop.simps) auto
  next
    case True
    show ?thesis
    proof (cases "aborted w (calls st)")
      case True
      with \<open>retry \<le> MAX_RETRIES \<and> am \<noteq> []\<close> show ?thesis by (subst retry_loop.simps) auto
    next
      case False
      let ?wl = "wave_loop w (concurrency options) (map (\<lambda>c. [c]) am) 0
                   (emit options (retry_message retry am) st) results []"
      from wave_loop_returns [OF 1(2)] obtain out st1 where wl: "?wl = Some (out, st1)"
        by (metis surj_pair)
      show ?thesis
      proof (cases out)
        case (Inl e)
        with True False wl show ?thesis by (subst retry_loop.simps) simp
      next
        case (Inr ra)
        obtain results' still where ra: "ra = (results', still)" by (cases ra)
        from 1(1) [OF True False wl refl Inr ra [symmetric] 1(2)]
        obtain res where "retry_loop w options (retry + 1) st1 results' still = Some res" by blast
        with True False wl Inr ra show ?thesis by (subst retry_loop.simps) simp
      qed
    qed
  qed
qed

lemma retry_loop_succeeds:
  assumes "0 < concurrency options" "\<forall>k. \<not> aborted w k" "\<forall>k p. backend w k p \<noteq> SessionFailed"
  shows "\<exists>results' am' st'. retry_loop w options retry st results am = Some (Inr (results', am'), st')"
  using assms
proof (induction w options retry st results am rule: retry_loop.induct)
  case (1 w options retry st results am)
  show ?case
  proof (cases "retry \<le> MAX_RETRIES \<and> am \<noteq> []")
    case False
    then show ?thesis by (subst retry_loop.simps) auto
  next
    case True
    have na: "\<not> aborted w (calls st)" using 1(3) by simp
    let ?wl = "wave_loop w (concurrency options) (map (\<lambda>c. [c]) am) 0
                 (emit options (retry_message retry am) st) results []"
    from wave_loop_succeeds [OF 1(2,3,4)] obtain results' still st1
      where wl: "?wl = Some (Inr (results', still), st1)"
      by blast
    from 1(1) [OF True na wl refl refl refl 1(2,3,4)]
    obtain results'' am' st' where
      "retry_loop w options (retry + 1) st1 results' still = Some (Inr (results'', am'), st')"
      by blast
    with True na wl show ?thesis by (subst retry_loop.simps) simp
  qed
qed

subsection \<open>Grouping into batches\<close>

lemma group_batches_concat:
  assumes "0 < bsize"
  shows "\<exists>batches. group_batches bsize xs i acc = Some batches \<and>
           concat batches = concat acc @ drop i xs \<and>
           (\<exists>new. batches = acc @ new \<and> (i < length xs \<longrightarrow> new \<noteq> []))"
proof (induction "length xs - i" arbitrary: i acc rule: less_induct)
  case less
  show ?case
  proof (cases "i < length xs")
    case False
    then show ?thesis by (subst group_batches.simps) simp
  next
    case True
    have "length xs - (i + bsize) < length xs - i" using True assms by simp
    from less [OF this, of "acc @ [take bsize (drop i xs)]"] obtain batches new where
      b: "group_batches bsize xs (i + bsize) (acc @ [take bsize (drop i xs)]) = Some batches"
        "concat batches = concat (acc @ [take bsize (drop i xs)]) @ drop (i + bsize) xs"
        "batches = (acc @ [take bsize (drop i xs)]) @ new"
      by blast
    have "take bsize (drop i xs) @ drop (i + bsize) xs = drop i xs"
      by (metis add.commute append_take_drop_id drop_drop)
    then have c: "concat batches = concat acc @ drop i xs" using b(2) by simp
    have "batches = acc @ (take bsize (drop i xs) # new)" using b(3) by simp
    with b(1) c True show ?thesis by (subst group_batches.simps) auto
  qed
qed


lemma group_batches_partial:
  assumes run: "group_batches bsize xs i acc = Some batches"
  shows "concat batches = concat acc @ drop i xs"
proof (rule group_batches.raw_induct
    [where P = "\<lambda>bsize xs i acc batches. concat batches = concat acc @ drop i xs", OF _ run])
  fix f and bsize :: nat and xs :: "ParagraphChunk list" and i acc batches
  assume ih: "\<And>(bsize::nat) (xs::ParagraphChunk list) i acc batches.
      f bsize xs i acc = Some batches \<Longrightarrow> concat batches = concat acc @ drop i xs"
  assume body: "(if i < length xs
      then f bsize xs (i + bsize) (acc @ [take bsize (drop i xs)])
      else Some acc) = Some batches"
  show "concat batches = concat acc @ drop i xs"
  proof (cases "i < length xs")
    case False
    with body show ?thesis by simp
  next
    case True
    with body have "f bsize xs (i + bsize) (acc @ [take bsize (drop i xs)]) = Some batches" by simp
    from ih [OF this] have "concat batches = concat acc @ take bsize (drop i xs) @ drop (i + bsize) xs"
      by simp
    moreover have "take bsize (drop i xs) @ drop (i + bsize) xs = drop i xs"
      by (metis add.commute append_take_drop_id drop_drop)
    ultimately show ?thesis by simp
  qed
qed

subsection \<open>The whole call\<close>

lemma translate_effect:
  assumes run: "translateChunksInParallel w chunks options = Some (out, st')"
  shows "call_effect chunks options out st'"
proof -
  let ?T = "filter translatable chunks"
  let ?r1 = "store_all (replicate (length chunks) None) (filter (\<lambda>c. \<not> translatable c) chunks)"
  let ?bs = "case batchSize options of None \<Rightarrow> 50 | Some b \<Rightarrow> b"
  from run obtain batches where gb: "group_batches ?bs ?T 0 [] = Some batches"
    by (cases "group_batches ?bs ?T 0 []") (auto simp: translateChunksInParallel_def Let_def)
  from group_batches_partial [OF gb] have cb: "concat batches = ?T" by simp
  let ?wl = "wave_loop w (concurrency options) batches 0 initial_tstate ?r1 []"
  from run gb obtain out1 st1 where wl: "?wl = Some (out1, st1)"
    by (cases ?wl) (auto simp: translateChunksInParallel_def Let_def)
  from wave_loop_effect [OF wl] cb
  have l1: "loop_effect ?T initial_tstate ?r1 [] out1 st1" by simp
  have fin: "\<And>o2 s2. loop_effect ?T initial_tstate ?r1 [] (Inl o2) s2 \<Longrightarrow>
       call_effect chunks options (Inl o2) s2"
    unfolding loop_effect_def call_effect_def initial_tstate_def by auto
  show ?thesis
  proof (cases out1)
    case (Inl e)
    with run gb wl have "out = Inl e" "st' = st1"
      by (auto simp: translateChunksInParallel_def Let_def)
    with l1 Inl fin show ?thesis by simp
  next
    case (Inr ra)
    obtain results2 am2 where ra: "ra = (results2, am2)" by (cases ra)
    let ?rl = "retry_loop w options 1 st1 results2 am2"
    from run gb wl Inr ra obtain out2 st2 where rl: "?rl = Some (out2, st2)"
      by (cases ?rl) (auto simp: translateChunksInParallel_def Let_def)
    from retry_loop_effect [OF rl] have "loop_effect am2 st1 results2 [] out2 st2" by simp
    with l1 Inr ra have l2: "loop_effect ?T initial_tstate ?r1 [] out2 st2"
      by (auto intro: loop_effect_trans)
    show ?thesis
    proof (cases out2)
      case (Inl e)
      with run gb wl \<open>out1 = Inr ra\<close> ra rl have "out = Inl e" "st' = st2"
        by (auto simp: translateChunksInParallel_def Let_def)
      with l2 Inl fin show ?thesis by simp
    next
      case (Inr rb)
      obtain results3 am3 where rb: "rb = (results3, am3)" by (cases rb)
      from run gb wl \<open>out1 = Inr ra\<close> ra rl Inr rb
      have o: "out = Inr (store_all results3 am3)"
        and s: "st' = (if am3 \<noteq> [] then emit options (warning_message am3) st2 else st2)"
        by (auto simp: translateChunksInParallel_def Let_def split: if_splits)
      from l2 Inr rb obtain ext ts where
        e: "sent st2 = ext" "\<forall>(b, r) \<in> set ext. set b \<subseteq> set ?T"
          "results3 = store_all ?r1 ts" "set am3 \<subseteq> set ?T"
          "index ` set ts \<subseteq> index ` set ?T"
          "\<forall>c \<in> set ?T. c \<in> set am3 \<or> index c \<in> index ` set ts"
          "\<forall>c \<in> set ?T. absent_in c ext \<longrightarrow> c \<in> set am3"
        unfolding loop_effect_def initial_tstate_def by auto
      have se: "sent st' = ext" unfolding s using e(1) by (simp add: emit_def)
      have pr: "am3 \<noteq> [] \<longrightarrow> onProgress options \<longrightarrow> warning_message am3 \<in> set (progress st')"
        unfolding s by (simp add: emit_def)
      have rs: "store_all results3 am3 = store_all ?r1 (ts @ am3)"
        unfolding e(3) by (simp add: store_all_append)
      have "\<exists>ts am.
             store_all results3 am3 = store_all ?r1 (ts @ am) \<and>
             index ` set ts \<subseteq> index ` set ?T \<and>
             set am \<subseteq> set ?T \<and>
             (\<forall>c \<in> set ?T. c \<in> set am \<or> index c \<in> index ` set ts) \<and>
             (\<forall>c \<in> set ?T. absent_in c (sent st') \<longrightarrow> c \<in> set am) \<and>
             (am \<noteq> [] \<longrightarrow> onProgress options \<longrightarrow> warning_message am \<in> set (progress st'))"
        apply (rule exI [of _ ts])
        apply (rule exI [of _ am3])
        unfolding se using rs e(4-7) pr by blast
      with e(2) se show ?thesis unfolding call_effect_def o by simp
    qed
  qed
qed


subsection \<open>The call ends\<close>

lemma translate_returns:
  assumes "0 < (case batchSize options of None \<Rightarrow> 50 | Some b \<Rightarrow> b)" "0 < concurrency options"
  shows "\<exists>res. translateChunksInParallel w chunks options = Some res"
proof -
  let ?T = "filter translatable chunks"
  let ?r1 = "store_all (replicate (length chunks) None) (filter (\<lambda>c. \<not> translatable c) chunks)"
  let ?bs = "case batchSize options of None \<Rightarrow> 50 | Some b \<Rightarrow> b"
  from group_batches_concat [OF assms(1), of ?T 0 "[]"] obtain batches
    where gb: "group_batches ?bs ?T 0 [] = Some batches" by blast
  from wave_loop_returns [OF assms(2)] obtain out1 st1
    where wl: "wave_loop w (concurrency options) batches 0 initial_tstate ?r1 [] = Some (out1, st1)"
    by (metis surj_pair)
  show ?thesis
  proof (cases out1)
    case (Inl e)
    with gb wl show ?thesis by (simp add: translateChunksInParallel_def Let_def)
  next
    case (Inr ra)
    obtain results2 am2 where ra: "ra = (results2, am2)" by (cases ra)
    from retry_loop_returns [OF assms(2)] obtain out2 st2
      where rl: "retry_loop w options 1 st1 results2 am2 = Some (out2, st2)"
      by (metis surj_pair)
    show ?thesis
    proof (cases out2)
      case (Inl e)
      with gb wl \<open>out1 = Inr ra\<close> ra rl show ?thesis
        by (simp add: translateChunksInParallel_def Let_def)
    next
      case (Inr rb)
      obtain results3 am3 where rb: "rb = (results3, am3)" by (cases rb)
      with gb wl \<open>out1 = Inr ra\<close> ra rl Inr show ?thesis
        by (simp add: translateChunksInParallel_def Let_def)
    qed
  qed
qed

lemma translate_succeeds:
  assumes "0 < (case batchSize options of None \<Rightarrow> 50 | Some b \<Rightarrow> b)" "0 < concurrency options"
    and "\<forall>k. \<not> aborted w k" "\<forall>k p. backend w k p \<noteq> SessionFailed"
  shows "\<exists>rs st'. translateChunksInParallel w chunks options = Some (Inr rs, st')"
proof -
  let ?T = "filter translatable chunks"
  let ?r1 = "store_all (replicate (length chunks) None) (filter (\<lambda>c. \<not> translatable c) chunks)"
  let ?bs = "case batchSize options of None \<Rightarrow> 50 | Some b \<Rightarrow> b"
  from group_batches_concat [OF assms(1), of ?T 0 "[]"] obtain batches
    where gb: "group_batches ?bs ?T 0 [] = Some batches" by blast
  from wave_loop_succeeds [OF assms(2,3,4)] obtain results2 am2 st1
    where wl: "wave_loop w (concurrency options) batches 0 initial_tstate ?r1 []
                 = Some (Inr (results2, am2), st1)"
    by blast
  from retry_loop_succeeds [OF assms(2,3,4)] obtain results3 am3 st2
    where rl: "retry_loop w options 1 st1 results2 am2 = Some (Inr (results3, am3), st2)"
    by blast
  from gb wl rl show ?thesis
    by (simp add: translateChunksInParallel_def Let_def)
qed

lemma distinct_index:
  "distinct (map index chunks) \<Longrightarrow> a \<in> set chunks \<Longrightarrow> b \<in> set chunks \<Longrightarrow> index a = index b \<Longrightarrow> a = b"
  by (meson distinct_map inj_on_def)

lemma aligned_index:
  "\<forall>k < length chunks. index (chunks ! k) = k \<Longrightarrow> c \<in> set chunks \<Longrightarrow> index c < length chunks"
  by (metis in_set_conv_nth)

lemma replicate_no_index:
  "\<forall>k < length (replicate n (None :: ParagraphChunk option)). \<forall>c. replicate n None ! k = Some c \<longrightarrow> index c = k"
  by simp

text \<open>
  C2. For chunks whose index is their position, every array that
  \<^verbatim>\<open>translateChunksInParallel\<close> returns has the length of the input and holds at every
  position a chunk with that index, whatever the backend answers to which call. With a
  positive batch size and concurrency, no cancellation and no failing session, the call
  does return an array.
\<close>

theorem translate_keeps_order:
  assumes aligned: "\<forall>k < length chunks. index (chunks ! k) = k"
  shows "(\<forall>rs st'. translateChunksInParallel w chunks options = Some (Inr rs, st') \<longrightarrow>
            length rs = length chunks \<and> (\<forall>k < length chunks. \<exists>c. rs ! k = Some c \<and> index c = k)) \<and>
         (0 < (case batchSize options of None \<Rightarrow> 50 | Some b \<Rightarrow> b) \<longrightarrow> 0 < concurrency options \<longrightarrow>
          (\<forall>k. \<not> aborted w k) \<longrightarrow> (\<forall>k p. backend w k p \<noteq> SessionFailed) \<longrightarrow>
          (\<exists>rs st'. translateChunksInParallel w chunks options = Some (Inr rs, st')))"
proof (rule conjI)
  show "\<forall>rs st'. translateChunksInParallel w chunks options = Some (Inr rs, st') \<longrightarrow>
            length rs = length chunks \<and> (\<forall>k < length chunks. \<exists>c. rs ! k = Some c \<and> index c = k)"
  proof (rule allI, rule allI, rule impI)
  fix rs st'
  assume run: "translateChunksInParallel w chunks options = Some (Inr rs, st')"
  let ?T = "filter translatable chunks"
  let ?PT = "filter (\<lambda>c. \<not> translatable c) chunks"
  let ?r0 = "replicate (length chunks) (None :: ParagraphChunk option)"
  let ?r1 = "store_all ?r0 ?PT"
  from translate_effect [OF run] obtain ts am where
    e: "rs = store_all ?r1 (ts @ am)" "index ` set ts \<subseteq> index ` set ?T" "set am \<subseteq> set ?T"
      "\<forall>c \<in> set ?T. c \<in> set am \<or> index c \<in> index ` set ts"
    unfolding call_effect_def by auto
  have in_range: "\<And>c. c \<in> set chunks \<Longrightarrow> index c < length chunks"
    using aligned by (rule aligned_index)
  have l1: "length ?r1 = length chunks"
  proof -
    have "\<forall>c \<in> set ?PT. index c < length ?r0" using in_range by simp
    then have "length ?r1 = length ?r0" by (rule length_store_all_in)
    then show ?thesis by simp
  qed
  have ti: "\<forall>c \<in> set (ts @ am). index c < length ?r1"
  proof
    fix c assume "c \<in> set (ts @ am)"
    then have "index c \<in> index ` set ?T" using e(2,3) by auto
    then obtain c' where "c' \<in> set chunks" "index c = index c'" by auto
    with in_range l1 show "index c < length ?r1" by simp
  qed
  then have "length (store_all ?r1 (ts @ am)) = length ?r1" by (rule length_store_all_in)
  with l1 e(1) have len: "length rs = length chunks" by simp
  have idx: "\<forall>k < length rs. \<forall>c. rs ! k = Some c \<longrightarrow> index c = k"
    unfolding e(1) by (intro store_all_index replicate_no_index)
  have "\<forall>k < length chunks. \<exists>c. rs ! k = Some c \<and> index c = k"
  proof (intro allI impI)
    fix k assume k: "k < length chunks"
    let ?c = "chunks ! k"
    have ck: "?c \<in> set chunks" "index ?c = k" using k aligned by simp_all
    have filled: "rs ! k \<noteq> None"
    proof (cases "translatable ?c")
      case False
      with ck(1) have "?c \<in> set ?PT" by simp
      from store_all_filled [OF this, of ?r0] ck(2) have "?r1 ! k \<noteq> None" by simp
      moreover have "k < length ?r1" using l1 k by simp
      ultimately show ?thesis unfolding e(1) by (rule store_all_keeps [rotated])
    next
      case True
      with ck(1) have "?c \<in> set ?T" by simp
      with e(4) have "?c \<in> set am \<or> index ?c \<in> index ` set ts" by blast
      then obtain t where t: "t \<in> set (ts @ am)" "index t = k" using ck(2) by auto
      from store_all_filled [OF t(1), of ?r1] t(2) show ?thesis unfolding e(1) by simp
    qed
    then obtain c where "rs ! k = Some c" by auto
    moreover from this idx k len have "index c = k" by simp
    ultimately show "\<exists>c. rs ! k = Some c \<and> index c = k" by blast
  qed
  with len show "length rs = length chunks \<and> (\<forall>k < length chunks. \<exists>c. rs ! k = Some c \<and> index c = k)"
    by (rule conjI)
  qed
next
  show "0 < (case batchSize options of None \<Rightarrow> 50 | Some b \<Rightarrow> b) \<longrightarrow> 0 < concurrency options \<longrightarrow>
          (\<forall>k. \<not> aborted w k) \<longrightarrow> (\<forall>k p. backend w k p \<noteq> SessionFailed) \<longrightarrow>
          (\<exists>rs st'. translateChunksInParallel w chunks options = Some (Inr rs, st'))"
    using translate_succeeds [of options w chunks] by blast
qed


subsection \<open>A small run\<close>

lemmas run_simps =
  translateChunksInParallel_def group_batches.simps wave_loop.simps retry_loop.simps
  translateBatch_def parse_response_def parse_step_def m_response_def inputContent_def
  translatable_def store_all_def arr_set_def emit_def retry_message_def warning_message_def
  missingIds_def MAX_RETRIES_def initial_tstate_def trim_def is_space_def is_digit_def
  parseInt_def digit_val_def show_nat.simps index_of.simps Let_def
  example_chunks_def echo_world_def partial_world_def aborted_world_def example_options_def

theorem translate_keeps_order_witness:
  "map index example_chunks = [0, 1, 2] \<and>
   (\<exists>rs st'. translateChunksInParallel echo_world example_chunks example_options = Some (Inr rs, st') \<and>
      length rs = 3 \<and> map (map_option index) rs = [Some 0, Some 1, Some 2])"
proof -
  have a: "\<forall>k < length example_chunks. index (example_chunks ! k) = k"
    by (simp add: example_chunks_def less_Suc_eq)
  have p: "0 < (case batchSize example_options of None \<Rightarrow> 50 | Some b \<Rightarrow> b)" "0 < concurrency example_options"
    "\<forall>k. \<not> aborted echo_world k" "\<forall>k p. backend echo_world k p \<noteq> SessionFailed"
    by (simp_all add: example_options_def echo_world_def)
  from translate_keeps_order [OF a, of echo_world example_options] p
  obtain rs st' where run: "translateChunksInParallel echo_world example_chunks example_options = Some (Inr rs, st')"
    and l: "length rs = length example_chunks"
    and i: "\<forall>k < length example_chunks. \<exists>c. rs ! k = Some c \<and> index c = k"
    by blast
  have l3: "length rs = 3" using l by (simp add: example_chunks_def)
  from i have "\<forall>k < 3. map_option index (rs ! k) = Some k"
    by (auto simp: example_chunks_def)
  then have "map (map_option index) rs = [Some 0, Some 1, Some 2]"
    using l3 by (auto simp: list_eq_iff_nth_eq less_Suc_eq numeral_3_eq_3)
  moreover have "map index example_chunks = [0, 1, 2]" by (simp add: example_chunks_def)
  ultimately show ?thesis using run l3 by simp
qed

text \<open>
  C5, as it holds. A chunk without text, or with blank text, is in no batch whose prompt
  is sent; and when no other chunk of the input has its index, every array returned
  holds the chunk itself at its index.
\<close>

theorem pass_through_untouched:
  assumes run: "translateChunksInParallel w chunks options = Some (out, st')"
    and c: "c \<in> set chunks" "\<not> hasText c \<or> trim (simplifiedText c) = []"
  shows "(\<forall>(b, r) \<in> set (sent st'). c \<notin> set b) \<and>
         ((\<forall>c' \<in> set chunks. index c' = index c \<longrightarrow> c' = c) \<longrightarrow>
          (\<forall>rs. out = Inr rs \<longrightarrow> index c < length rs \<and> rs ! index c = Some c))"
proof (rule conjI)
  let ?T = "filter translatable chunks"
  let ?PT = "filter (\<lambda>c. \<not> translatable c) chunks"
  let ?r0 = "replicate (length chunks) (None :: ParagraphChunk option)"
  let ?r1 = "store_all ?r0 ?PT"
  have nt: "\<not> translatable c" using c(2) by (auto simp: translatable_def)
  then have cT: "c \<notin> set ?T" by simp
  note eff = translate_effect [OF run, unfolded call_effect_def]
  from eff have s: "\<forall>(b, r) \<in> set (sent st'). set b \<subseteq> set ?T" by (rule conjunct1)
  show "\<forall>(b, r) \<in> set (sent st'). c \<notin> set b"
    using s cT by fastforce
  show "(\<forall>c' \<in> set chunks. index c' = index c \<longrightarrow> c' = c) \<longrightarrow>
          (\<forall>rs. out = Inr rs \<longrightarrow> index c < length rs \<and> rs ! index c = Some c)"
  proof (intro allI impI)
    fix rs assume u: "\<forall>c' \<in> set chunks. index c' = index c \<longrightarrow> c' = c" and out: "out = Inr rs"
    have ni: "index c \<notin> index ` set ?T"
    proof
      assume "index c \<in> index ` set ?T"
      then obtain c' where "c' \<in> set ?T" "index c' = index c" by auto
      with u have "c \<in> set ?T" by auto
      with cT show False by simp
    qed
    from eff out obtain ts am where
      e: "rs = store_all ?r1 (ts @ am)" "index ` set ts \<subseteq> index ` set ?T" "set am \<subseteq> set ?T"
      by auto
    have cP: "c \<in> set ?PT" using c(1) nt by simp
    have "\<forall>c' \<in> set ?PT. index c' = index c \<longrightarrow> c' = c" using u by simp
    from store_all_last [OF cP this, of ?r0]
    have r1: "index c < length ?r1" "?r1 ! index c = Some c" by simp_all
    have "index c \<notin> index ` set (ts @ am)" using ni e(2,3) by auto
    from store_all_other [OF r1(1) this] r1(2) have "rs ! index c = Some c"
      unfolding e(1) by simp
    moreover have "index c < length rs"
      unfolding e(1) using r1(1) length_store_all [of ?r1 "ts @ am"] by simp
    ultimately show "index c < length rs \<and> rs ! index c = Some c" by simp
  qed
qed

theorem pass_through_untouched_witness:
  "(\<exists>out st'. translateChunksInParallel echo_world example_chunks example_options = Some (out, st') \<and>
      (\<forall>(b, r) \<in> set (sent st'). \<lparr>index = 1, simplifiedText = [], hasText = False\<rparr> \<notin> set b) \<and>
      (\<exists>rs. out = Inr rs \<and> 1 < length rs \<and>
         rs ! 1 = Some \<lparr>index = 1, simplifiedText = [], hasText = False\<rparr>)) \<and>
   filter (\<lambda>c'. index c' = 1) example_chunks = [\<lparr>index = 1, simplifiedText = [], hasText = False\<rparr>]"
proof -
  let ?c = "\<lparr>index = 1, simplifiedText = [], hasText = False\<rparr>"
  have "\<exists>rs st'. translateChunksInParallel echo_world example_chunks example_options = Some (Inr rs, st')"
    by (simp add: run_simps)
  then obtain out st' where
    run: "translateChunksInParallel echo_world example_chunks example_options = Some (out, st')"
    and out: "\<exists>rs. out = Inr rs"
    by blast
  have c: "?c \<in> set example_chunks" "\<not> hasText ?c \<or> trim (simplifiedText ?c) = []"
    by (simp_all add: example_chunks_def)
  have u: "\<forall>c' \<in> set example_chunks. index c' = index ?c \<longrightarrow> c' = ?c"
    by (simp add: example_chunks_def)
  note t = pass_through_untouched [OF run c]
  from t have s: "\<forall>(b, r) \<in> set (sent st'). ?c \<notin> set b" by (rule conjunct1)
  from out obtain rs where rs: "out = Inr rs" by blast
  from t have "(\<forall>c' \<in> set example_chunks. index c' = index ?c \<longrightarrow> c' = ?c) \<longrightarrow>
          (\<forall>rs. out = Inr rs \<longrightarrow> index ?c < length rs \<and> rs ! index ?c = Some ?c)"
    by (rule conjunct2)
  with u rs have "index ?c < length rs \<and> rs ! index ?c = Some ?c" by fast
  then have r: "\<exists>rs. out = Inr rs \<and> 1 < length rs \<and> rs ! 1 = Some ?c" using rs by simp
  have u': "filter (\<lambda>c'. index c' = 1) example_chunks = [?c]" by (simp add: example_chunks_def)
  from run s r have "\<exists>out st'. translateChunksInParallel echo_world example_chunks example_options = Some (out, st') \<and>
      (\<forall>(b, r) \<in> set (sent st'). ?c \<notin> set b) \<and>
      (\<exists>rs. out = Inr rs \<and> 1 < length rs \<and> rs ! 1 = Some ?c)" by blast
  with u' show ?thesis by (intro conjI)
qed


text \<open>
  As the claim states it, for every input sequence, C5 fails: a chunk without text is
  overwritten in the result by a translated chunk that has the same index.
\<close>

theorem pass_through_overwritten:
  "shared_index_chunks ! 0 = \<lparr>index = 0, simplifiedText = [], hasText = False\<rparr> \<and>
   (\<exists>st'. translateChunksInParallel silent_world shared_index_chunks example_options
            = Some (Inr [Some \<lparr>index = 0, simplifiedText = ''Hello'', hasText = True\<rparr>, None], st'))"
  by (simp add: run_simps silent_world_def shared_index_chunks_def)

lemma join_names: "x \<in> set xs \<Longrightarrow> \<exists>a b. join sep xs = a @ x @ b"
proof (induction sep xs rule: join.induct)
  case (1 sep)
  then show ?case by simp
next
  case (2 sep y)
  then show ?case by simp (metis append_Nil append_Nil2)
next
  case (3 sep y z zs)
  show ?case
  proof (cases "x = y")
    case True
    have "join sep (y # z # zs) = [] @ x @ (sep @ join sep (z # zs))"
      using True by simp
    then show ?thesis by blast
  next
    case False
    with 3(2) have "x \<in> set (z # zs)" by simp
    from 3(1) [OF this] obtain a b where "join sep (z # zs) = a @ x @ b" by blast
    then have "join sep (y # z # zs) = (y @ sep @ a) @ x @ b" by simp
    then show ?thesis by blast
  qed
qed

lemma missingIds_names:
  "c \<in> set am \<Longrightarrow> \<exists>a b. missingIds am = a @ show_nat (index c) @ b"
  unfolding missingIds_def by (rule join_names) simp

text \<open>
  C4, as it holds. For a translatable chunk whose index no reply names, on the first
  pass or on a retry: when no other chunk of the input has its index, the chunk stands
  unchanged at its index in every array returned; and with a progress callback the
  warning that lists the indices of the chunks still missing, this chunk among them, is
  emitted. The call throws only when it is cancelled or a session cannot be created:
  with neither (and a positive batch size and concurrency) it returns an array.
\<close>

theorem missing_chunk_kept:
  assumes run: "translateChunksInParallel w chunks options = Some (out, st')"
    and c: "c \<in> set chunks" "translatable c"
    and absent: "absent_in c (sent st')"
  shows "(\<forall>rs. out = Inr rs \<longrightarrow>
            ((\<forall>c' \<in> set chunks. index c' = index c \<longrightarrow> c' = c) \<longrightarrow>
               index c < length rs \<and> rs ! index c = Some c) \<and>
            (onProgress options \<longrightarrow>
               (\<exists>am a b. c \<in> set am \<and> warning_message am \<in> set (progress st') \<and>
                  missingIds am = a @ show_nat (index c) @ b))) \<and>
         (\<forall>e. out = Inl e \<longrightarrow> e = Aborted \<or> e = SessionError) \<and>
         (0 < (case batchSize options of None \<Rightarrow> 50 | Some b \<Rightarrow> b) \<longrightarrow> 0 < concurrency options \<longrightarrow>
          (\<forall>k. \<not> aborted w k) \<longrightarrow> (\<forall>k p. backend w k p \<noteq> SessionFailed) \<longrightarrow> (\<exists>rs. out = Inr rs))"
proof (intro conjI)
  let ?T = "filter translatable chunks"
  let ?r1 = "store_all (replicate (length chunks) None) (filter (\<lambda>c. \<not> translatable c) chunks)"
  note eff = translate_effect [OF run, unfolded call_effect_def, THEN conjunct2]
  have cT: "c \<in> set ?T" using c by simp
  show "\<forall>rs. out = Inr rs \<longrightarrow>
            ((\<forall>c' \<in> set chunks. index c' = index c \<longrightarrow> c' = c) \<longrightarrow>
               index c < length rs \<and> rs ! index c = Some c) \<and>
            (onProgress options \<longrightarrow>
               (\<exists>am a b. c \<in> set am \<and> warning_message am \<in> set (progress st') \<and>
                  missingIds am = a @ show_nat (index c) @ b))"
  proof (intro allI impI)
    fix rs assume out: "out = Inr rs"
    from eff have "\<exists>ts am.
             rs = store_all ?r1 (ts @ am) \<and>
             index ` set ts \<subseteq> index ` set ?T \<and>
             set am \<subseteq> set ?T \<and>
             (\<forall>c \<in> set ?T. c \<in> set am \<or> index c \<in> index ` set ts) \<and>
             (\<forall>c \<in> set ?T. absent_in c (sent st') \<longrightarrow> c \<in> set am) \<and>
             (am \<noteq> [] \<longrightarrow> onProgress options \<longrightarrow> warning_message am \<in> set (progress st'))"
      unfolding out sum.case .
    then obtain ts am where
      e: "rs = store_all ?r1 (ts @ am)" "set am \<subseteq> set ?T"
        "\<forall>c \<in> set ?T. absent_in c (sent st') \<longrightarrow> c \<in> set am"
        "am \<noteq> [] \<longrightarrow> onProgress options \<longrightarrow> warning_message am \<in> set (progress st')"
      by (elim exE conjE) (rule that)
    from e(3) cT absent have cam: "c \<in> set am" by fast
    then have ne: "am \<noteq> []" by (cases am) simp_all
    have pos: "(\<forall>c' \<in> set chunks. index c' = index c \<longrightarrow> c' = c) \<longrightarrow>
               index c < length rs \<and> rs ! index c = Some c"
    proof
      assume u: "\<forall>c' \<in> set chunks. index c' = index c \<longrightarrow> c' = c"
      have "\<forall>c' \<in> set am. index c' = index c \<longrightarrow> c' = c"
      proof (intro ballI impI)
        fix c' assume "c' \<in> set am" "index c' = index c"
        with e(2) have "c' \<in> set chunks" "index c' = index c" by auto
        with u show "c' = c" by fast
      qed
      from store_all_last [OF cam this, of "store_all ?r1 ts"]
      show "index c < length rs \<and> rs ! index c = Some c"
        unfolding e(1) store_all_append .
    qed
    have "onProgress options \<longrightarrow> (\<exists>am a b. c \<in> set am \<and> warning_message am \<in> set (progress st') \<and>
                  missingIds am = a @ show_nat (index c) @ b)"
    proof
      assume "onProgress options"
      with e(4) ne have wm: "warning_message am \<in> set (progress st')" by simp
      from missingIds_names [OF cam] obtain a b where "missingIds am = a @ show_nat (index c) @ b"
        by (elim exE)
      with cam wm show "\<exists>am a b. c \<in> set am \<and> warning_message am \<in> set (progress st') \<and>
                  missingIds am = a @ show_nat (index c) @ b"
        by (intro exI conjI)
    qed
    with pos show "((\<forall>c' \<in> set chunks. index c' = index c \<longrightarrow> c' = c) \<longrightarrow>
               index c < length rs \<and> rs ! index c = Some c) \<and>
            (onProgress options \<longrightarrow>
               (\<exists>am a b. c \<in> set am \<and> warning_message am \<in> set (progress st') \<and>
                  missingIds am = a @ show_nat (index c) @ b))" by (rule conjI)
  qed
  show "\<forall>e. out = Inl e \<longrightarrow> e = Aborted \<or> e = SessionError"
  proof (intro allI impI)
    fix e assume out: "out = Inl e"
    from eff show "e = Aborted \<or> e = SessionError" unfolding out sum.case .
  qed
  show "0 < (case batchSize options of None \<Rightarrow> 50 | Some b \<Rightarrow> b) \<longrightarrow> 0 < concurrency options \<longrightarrow>
          (\<forall>k. \<not> aborted w k) \<longrightarrow> (\<forall>k p. backend w k p \<noteq> SessionFailed) \<longrightarrow> (\<exists>rs. out = Inr rs)"
  proof (intro impI)
    assume "0 < (case batchSize options of None \<Rightarrow> 50 | Some b \<Rightarrow> b)" "0 < concurrency options"
      "\<forall>k. \<not> aborted w k" "\<forall>k p. backend w k p \<noteq> SessionFailed"
    from translate_succeeds [OF this, of chunks] obtain rs st'' where
      "translateChunksInParallel w chunks options = Some (Inr rs, st'')" by (elim exE)
    with run have "out = Inr rs" by simp
    then show "\<exists>rs. out = Inr rs" by (rule exI)
  qed
qed

theorem missing_chunk_kept_witness:
  "\<exists>rs st'.
     translateChunksInParallel partial_world example_chunks example_options = Some (Inr rs, st') \<and>
     absent_in (example_chunks ! 2) (sent st') \<and>
     map fst (sent st') = [[example_chunks ! 0, example_chunks ! 2], [example_chunks ! 2], [example_chunks ! 2]] \<and>
     rs ! 2 = Some (example_chunks ! 2) \<and>
     rs ! 0 = Some \<lparr>index = 0, simplifiedText = ''Hallo'', hasText = True\<rparr> \<and>
     warning_message [example_chunks ! 2] \<in> set (progress st') \<and>
     warning_message [example_chunks ! 2]
       = ''Warning: 1 chunks could not be translated after 2 retries (ids: 2). Keeping original text.''"
proof -
  let ?c = "example_chunks ! 2"
  have \<open>\<exists>rs st'. translateChunksInParallel partial_world example_chunks example_options = Some (Inr rs, st') \<and>
      map fst (sent st') = [[example_chunks ! 0, ?c], [?c], [?c]] \<and>
      list_all (\<lambda>(b, r). r = Reply ''<p id="0">  Hallo  </p>'') (sent st') \<and>
      rs ! 0 = Some \<lparr>index = 0, simplifiedText = ''Hallo'', hasText = True\<rparr> \<and>
      progress st' = [retry_message 1 [?c], retry_message 2 [?c], warning_message [?c]]\<close>
    by (simp add: run_simps numeral_3_eq_3)
  then obtain rs st' where
    run: "translateChunksInParallel partial_world example_chunks example_options = Some (Inr rs, st')"
    and s1: "map fst (sent st') = [[example_chunks ! 0, ?c], [?c], [?c]]"
    and s2: \<open>list_all (\<lambda>(b, r). r = Reply ''<p id="0">  Hallo  </p>'') (sent st')\<close>
    and r0: "rs ! 0 = Some \<lparr>index = 0, simplifiedText = ''Hallo'', hasText = True\<rparr>"
    and p: "progress st' = [retry_message 1 [?c], retry_message 2 [?c], warning_message [?c]]"
    by (elim exE conjE) (rule that)
  have ids: \<open>reply_ids (Reply ''<p id="0">  Hallo  </p>'') = [0]\<close>
    by code_simp
  have all: \<open>\<forall>(b, r) \<in> set (sent st'). r = Reply ''<p id="0">  Hallo  </p>''\<close>
    using s2 by (simp add: list_all_iff)
  have absent: "absent_in ?c (sent st')"
    unfolding absent_in_def
  proof (clarify)
    fix b r assume "(b, r) \<in> set (sent st')" and i: "index ?c \<in> set (reply_ids r)"
    with all have \<open>r = Reply ''<p id="0">  Hallo  </p>''\<close> by fast
    with i ids have "index ?c = 0" by simp
    then show False by (simp add: example_chunks_def)
  qed
  have c: "?c \<in> set example_chunks" "translatable ?c"
    by (simp_all add: example_chunks_def translatable_def trim_def is_space_def)
  have u: "\<forall>c' \<in> set example_chunks. index c' = index ?c \<longrightarrow> c' = ?c"
    by (simp add: example_chunks_def)
  have ic: "index ?c = 2" by (simp add: example_chunks_def)
  have o: "onProgress example_options" by (simp add: example_options_def)
  note t = missing_chunk_kept [OF run c absent, THEN conjunct1, rule_format, OF refl]
  from t have "(\<forall>c' \<in> set example_chunks. index c' = index ?c \<longrightarrow> c' = ?c) \<longrightarrow>
               index ?c < length rs \<and> rs ! index ?c = Some ?c"
    by (rule conjunct1)
  with u have "rs ! index ?c = Some ?c" by fast
  then have k: "rs ! 2 = Some ?c" unfolding ic .
  have w: "warning_message [?c] \<in> set (progress st')" using p by simp
  have m: "warning_message [?c]
       = ''Warning: 1 chunks could not be translated after 2 retries (ids: 2). Keeping original text.''"
    by (simp add: example_chunks_def warning_message_def missingIds_def show_nat.simps MAX_RETRIES_def)
  show ?thesis
    by (rule exI [of _ rs], rule exI [of _ st'], intro conjI) (fact run absent s1 k r0 w m)+
qed


text \<open>
  As the claim states it, for every translatable chunk, C4 fails: of two chunks with the
  same index that no reply names, the result holds the second at their index, not the
  first.
\<close>

theorem missing_chunk_overwritten:
  "\<exists>rs st'. translateChunksInParallel silent_world shared_index_missing example_options = Some (Inr rs, st') \<and>
     translatable (shared_index_missing ! 0) \<and>
     absent_in (shared_index_missing ! 0) (sent st') \<and>
     rs ! index (shared_index_missing ! 0) = Some (shared_index_missing ! 1) \<and>
     shared_index_missing ! 1 \<noteq> shared_index_missing ! 0"
proof -
  have "\<exists>rs st'. translateChunksInParallel silent_world shared_index_missing example_options = Some (Inr rs, st') \<and>
      list_all (\<lambda>(b, r). r = Reply []) (sent st') \<and> rs ! 0 = Some (shared_index_missing ! 1)"
    by (simp add: run_simps silent_world_def shared_index_missing_def)
  then obtain rs st' where
    run: "translateChunksInParallel silent_world shared_index_missing example_options = Some (Inr rs, st')"
    and s: "list_all (\<lambda>(b, r). r = Reply []) (sent st')"
    and r: "rs ! 0 = Some (shared_index_missing ! 1)"
    by (elim exE conjE) (rule that)
  have t: "translatable (shared_index_missing ! 0)"
    by (simp add: shared_index_missing_def translatable_def trim_def is_space_def)
  have ids: "reply_ids (Reply []) = []" by (simp add: reply_ids_def)
  have all: "\<forall>(b, r) \<in> set (sent st'). r = Reply []" using s by (simp add: list_all_iff)
  have a: "absent_in (shared_index_missing ! 0) (sent st')"
    unfolding absent_in_def
  proof (clarify)
    fix b r assume "(b, r) \<in> set (sent st')" and i: "index (shared_index_missing ! 0) \<in> set (reply_ids r)"
    with all have "r = Reply []" by fast
    with i ids show False by simp
  qed
  have r': "rs ! index (shared_index_missing ! 0) = Some (shared_index_missing ! 1)"
    using r by (simp add: shared_index_missing_def)
  have d: "shared_index_missing ! 1 \<noteq> shared_index_missing ! 0"
    by (simp add: shared_index_missing_def)
  show ?thesis
    by (rule exI [of _ rs], rule exI [of _ st'], intro conjI) (fact run t a r' d)+
qed

text \<open>
  C7, as it holds. With the signal aborted when the call starts, something to translate
  and a positive batch size, \<^verbatim>\<open>translateChunksInParallel\<close> throws the cancellation
  error, before any backend call, any prompt and any progress message.
\<close>

theorem aborted_before_first_wave:
  assumes "aborted w 0" "filter translatable chunks \<noteq> []"
    and "0 < (case batchSize options of None \<Rightarrow> 50 | Some b \<Rightarrow> b)"
  shows "\<exists>st'. translateChunksInParallel w chunks options = Some (Inl Aborted, st') \<and>
           calls st' = 0 \<and> sent st' = [] \<and> progress st' = []"
proof -
  let ?T = "filter translatable chunks"
  let ?bs = "case batchSize options of None \<Rightarrow> 50 | Some b \<Rightarrow> b"
  from group_batches_concat [OF assms(3), of ?T 0 "[]"] obtain batches
    where gb: "group_batches ?bs ?T 0 [] = Some batches" and cc: "concat batches = ?T"
    by auto
  from cc assms(2) have ne: "0 < length batches" by (cases batches) auto
  have wl: "wave_loop w (concurrency options) batches 0 initial_tstate r [] = Some (Inl Aborted, initial_tstate)" for r
    using ne assms(1) by (subst wave_loop.simps) (simp add: initial_tstate_def)
  have "translateChunksInParallel w chunks options = Some (Inl Aborted, initial_tstate)"
    using gb wl by (simp add: translateChunksInParallel_def Let_def)
  then show ?thesis by (simp add: initial_tstate_def)
qed

theorem aborted_before_first_wave_witness:
  "aborted aborted_world 0 \<and> filter translatable example_chunks = [example_chunks ! 0, example_chunks ! 2] \<and>
   (\<exists>st'. translateChunksInParallel aborted_world example_chunks example_options = Some (Inl Aborted, st') \<and>
           calls st' = 0 \<and> sent st' = [] \<and> progress st' = [])"
proof -
  have a: "aborted aborted_world 0" by (simp add: aborted_world_def)
  have f: "filter translatable example_chunks = [example_chunks ! 0, example_chunks ! 2]"
    by (simp add: example_chunks_def translatable_def trim_def is_space_def)
  then have n: "filter translatable example_chunks \<noteq> []" by simp
  have b: "0 < (case batchSize example_options of None \<Rightarrow> 50 | Some b \<Rightarrow> b)"
    by (simp add: example_options_def)
  from aborted_before_first_wave [OF a n b, of ] a f show ?thesis by (intro conjI)
qed

text \<open>
  As the claim states it, C7 fails: the signal is read at the start of a wave only, so
  with nothing to translate a call whose signal is aborted from the start returns its
  result.
\<close>

theorem aborted_nothing_to_translate:
  "aborted aborted_world 0 \<and>
   translateChunksInParallel aborted_world [\<lparr>index = 0, simplifiedText = [], hasText = False\<rparr>] example_options
     = Some (Inr [Some \<lparr>index = 0, simplifiedText = [], hasText = False\<rparr>], initial_tstate)"
  by (simp add: run_simps)


text \<open>
  C10. For a match of the response regex whose ID is the index of a chunk of the batch,
  \<^verbatim>\<open>translateBatch\<close> returns among the translated chunks that chunk with \<open>hasText\<close> true
  and, as its text, the body of the match without its leading and trailing white space,
  or the chunk's own text when nothing is left of the body; the chunk is not among the
  missing ones.
\<close>

theorem translateBatch_trims:
  assumes "batch \<noteq> []"
    and "backend w (calls st) (inputContent batch) = Reply resultText"
    and "(pre, whole, idStr, body) \<in> set (fst (gmatch m_response [] resultText))"
    and "find (\<lambda>c. index c = parseInt idStr) batch = Some original"
  shows "\<exists>br st'. translateBatch w st batch = (Inr br, st') \<and>
           original\<lparr>simplifiedText := (if trim body \<noteq> [] then trim body else simplifiedText original),
                    hasText := True\<rparr> \<in> set (translated br) \<and>
           original \<notin> set (missing br) \<and>
           (\<exists>a b. body = a @ trim body @ b \<and> list_all is_space a \<and> list_all is_space b) \<and>
           (trim body = [] \<or> \<not> is_space (hd (trim body)) \<and> \<not> is_space (last (trim body)))"
proof -
  let ?br = "parse_response batch resultText"
  let ?st = "st\<lparr>calls := calls st + 1, sent := sent st @ [(batch, Reply resultText)]\<rparr>"
  have tb: "translateBatch w st batch = (Inr ?br, ?st)"
    using assms(1,2) by (simp add: translateBatch_def)
  note facts = parse_response_facts [of batch resultText]
  from facts have "\<forall>pre whole idStr body original.
         (pre, whole, idStr, body) \<in> set (fst (gmatch m_response [] resultText)) \<longrightarrow>
         find (\<lambda>c. index c = parseInt idStr) batch = Some original \<longrightarrow>
         translated_of original body \<in> set (translated ?br)"
    by (elim conjE)
  with assms(3,4) have "translated_of original body \<in> set (translated ?br)" by blast
  then have t: "original\<lparr>simplifiedText := (if trim body \<noteq> [] then trim body else simplifiedText original),
                    hasText := True\<rparr> \<in> set (translated ?br)"
    unfolding translated_of_def .
  from find_index [OF assms(4)] have o: "original \<in> set batch" "index original = parseInt idStr"
    by simp_all
  have "parseInt idStr \<in> set (reply_ids (Reply resultText))"
    using assms(3) by (force simp: reply_ids_def)
  with o(2) have "original \<notin> {c \<in> set batch. index c \<notin> set (reply_ids (Reply resultText))}" by simp
  with facts have m: "original \<notin> set (missing ?br)" by simp
  have e: "trim body = [] \<or> \<not> is_space (hd (trim body)) \<and> \<not> is_space (last (trim body))"
    using trim_ends [of body] by blast
  note d = trim_decomp [of body]
  show ?thesis
    by (rule exI [of _ ?br], rule exI [of _ ?st], intro conjI) (fact tb t m d e)+
qed

theorem translateBatch_trims_witness:
  \<open>fst (gmatch m_response [] ''<p id="0">  Hallo  </p><p id="2"> </p>'')
     = [([], ''<p id="0">  Hallo  </p>'', ''0'', ''  Hallo  ''), ([], ''<p id="2"> </p>'', ''2'', '' '')] \<and>
   (\<exists>br st'. translateBatch
        \<lparr>backend = (\<lambda>k prompt. Reply ''<p id="0">  Hallo  </p><p id="2"> </p>''), aborted = (\<lambda>k. False)\<rparr>
        initial_tstate [example_chunks ! 0, example_chunks ! 2] = (Inr br, st') \<and>
      \<lparr>index = 0, simplifiedText = ''Hallo'', hasText = True\<rparr> \<in> set (translated br) \<and>
      \<lparr>index = 2, simplifiedText = ''[RUN:2]World[/RUN:2]'', hasText = True\<rparr> \<in> set (translated br) \<and>
      missing br = [])\<close>
proof -
  let ?r = \<open>''<p id="0">  Hallo  </p><p id="2"> </p>''\<close>
  let ?w = "\<lparr>backend = (\<lambda>k prompt. Reply ?r), aborted = (\<lambda>k. False)\<rparr>"
  let ?batch = "[example_chunks ! 0, example_chunks ! 2]"
  have g: \<open>fst (gmatch m_response [] ?r)
     = [([], ''<p id="0">  Hallo  </p>'', ''0'', ''  Hallo  ''), ([], ''<p id="2"> </p>'', ''2'', '' '')]\<close>
    by code_simp
  have n: "?batch \<noteq> []" by simp
  have b: "backend ?w (calls initial_tstate) (inputContent ?batch) = Reply ?r" by simp
  have m0: \<open>([], ''<p id="0">  Hallo  </p>'', ''0'', ''  Hallo  '') \<in> set (fst (gmatch m_response [] ?r))\<close>
    and m2: \<open>([], ''<p id="2"> </p>'', ''2'', '' '') \<in> set (fst (gmatch m_response [] ?r))\<close>
    unfolding g by simp_all
  have f0: "find (\<lambda>c. index c = parseInt ''0'') ?batch = Some (example_chunks ! 0)"
    and f2: "find (\<lambda>c. index c = parseInt ''2'') ?batch = Some (example_chunks ! 2)"
    by (simp_all add: example_chunks_def parseInt_def digit_val_def)
  have t0: "trim ''  Hallo  '' = ''Hallo''" and t2: "trim '' '' = []"
    by (simp_all add: trim_def is_space_def)
  obtain br st' where tb: "translateBatch ?w initial_tstate ?batch = (Inr br, st')"
    using translateBatch_trims [OF n b m0 f0] by (elim exE conjE)
  from translateBatch_trims [OF n b m0 f0] tb t0
  have r0: "\<lparr>index = 0, simplifiedText = ''Hallo'', hasText = True\<rparr> \<in> set (translated br)"
    by (simp add: example_chunks_def)
  from translateBatch_trims [OF n b m2 f2] tb t2
  have r2: "\<lparr>index = 2, simplifiedText = ''[RUN:2]World[/RUN:2]'', hasText = True\<rparr> \<in> set (translated br)"
    by (simp add: example_chunks_def)
  have "translateBatch ?w initial_tstate ?batch = (Inr (parse_response ?batch ?r),
          initial_tstate\<lparr>calls := calls initial_tstate + 1, sent := sent initial_tstate @ [(?batch, Reply ?r)]\<rparr>)"
    by (simp add: translateBatch_def)
  with tb have "br = parse_response ?batch ?r" by simp
  moreover have "missing (parse_response ?batch ?r) = []"
    by code_simp
  ultimately have ms: "missing br = []" by simp
  show ?thesis
    by (rule conjI, fact g, rule exI [of _ br], rule exI [of _ st'], intro conjI) (fact tb r0 r2 ms)+
qed


section \<open>The orchestrator\<close>

subsection \<open>\<^verbatim>\<open>validateXml\<close>\<close>

subsection \<open>\<^verbatim>\<open>translateDocx\<close>\<close>

lemma repacked_report [simp]: "repacked (report options msg st) = repacked st"
  by (simp add: report_def)

text \<open>
  C6. When the XML that \<^verbatim>\<open>reconstructXml\<close> returns for the translated chunks fails
  \<^verbatim>\<open>validateXml\<close>, \<^verbatim>\<open>translateDocx\<close> throws the error of \<^verbatim>\<open>validateXml\<close> and has not
  called \<^verbatim>\<open>repackDocx\<close>.
\<close>

theorem invalid_xml_never_repacked:
  assumes "extracted env = Inr documentXml"
    and "replaceTagsWithIds (chunkParagraphs documentXml) = (chunks, idMap)"
    and "list_ex hasText chunks"
    and "translateChunksInParallel (agents env) chunks
           \<lparr>batchSize = None,
            concurrency = (case concurrencyOption options of None \<Rightarrow> 5 | Some n \<Rightarrow> n),
            onProgress = False\<rparr> = Some (Inr translatedChunks, ts)"
    and "\<not> list_ex (\<lambda>chunk. chunk = None) translatedChunks"
    and "reconstructXml documentXml (map the translatedChunks) idMap = Inr translatedXml"
    and "validateXml translatedXml = Inl e"
  shows "\<exists>st'. translateDocx env options = Some (Inl e, st') \<and> repacked st' = []"
proof -
  from assms(3) have ne: "chunks \<noteq> []" by (cases chunks) simp_all
  show ?thesis
    using assms ne
    by (simp add: translateDocx_def Let_def initial_dstate_def)
qed

text \<open>Whatever \<^verbatim>\<open>translateDocx\<close> hands to \<^verbatim>\<open>repackDocx\<close> has passed \<^verbatim>\<open>validateXml\<close>, or is the
  XML of the input (when no paragraph has text); and there is at most one such call.\<close>

lemma translateDocx_repacks:
  assumes run: "translateDocx env options = Some (out, st')"
  shows "length (repacked st') \<le> 1 \<and>
         (\<forall>xml \<in> set (repacked st'). validateXml xml = Inr () \<or> extracted env = Inr xml)"
proof (cases "extracted env")
  case (Inl e)
  with run have "repacked st' = []"
    by (auto simp: translateDocx_def Let_def initial_dstate_def)
  then show ?thesis by simp
next
  case (Inr documentXml)
  obtain chunks idMap where r: "replaceTagsWithIds (chunkParagraphs documentXml) = (chunks, idMap)"
    by (cases "replaceTagsWithIds (chunkParagraphs documentXml)")
  let ?opts = "\<lparr>batchSize = None,
            concurrency = (case concurrencyOption options of None \<Rightarrow> 5 | Some n \<Rightarrow> n),
            onProgress = False\<rparr>"
  show ?thesis
  proof (cases "chunks = [] \<or> \<not> list_ex hasText chunks")
    case True
    with run Inr r have "repacked st' = [documentXml]"
      by (auto simp: translateDocx_def Let_def initial_dstate_def repackDocx_def split: option.splits)
    with Inr show ?thesis by simp
  next
    case False
    show ?thesis
    proof (cases "translateChunksInParallel (agents env) chunks ?opts")
      case None
      with run Inr r False show ?thesis by (simp add: translateDocx_def Let_def)
    next
      case (Some res)
      obtain tout ts where res: "res = (tout, ts)" by (cases res)
      show ?thesis
      proof (cases tout)
        case (Inl e)
        with run Inr r False Some res have "repacked st' = []"
          by (auto simp: translateDocx_def Let_def initial_dstate_def)
        then show ?thesis by simp
      next
        case tc: (Inr translatedChunks)
        show ?thesis
        proof (cases "list_ex (\<lambda>chunk. chunk = None) translatedChunks")
          case True
          with run Inr r False Some res tc have "repacked st' = []"
            by (auto simp: translateDocx_def Let_def initial_dstate_def)
          then show ?thesis by simp
        next
          case nh: False
          show ?thesis
          proof (cases "reconstructXml documentXml (map the translatedChunks) idMap")
            case (Inl e)
            with run \<open>extracted env = Inr documentXml\<close> r False Some res tc nh have "repacked st' = []"
              by (auto simp: translateDocx_def Let_def initial_dstate_def)
            then show ?thesis by simp
          next
            case rx: (Inr translatedXml)
            show ?thesis
            proof (cases "validateXml translatedXml")
              case (Inl e)
              with run \<open>extracted env = Inr documentXml\<close> r False Some res tc nh rx have "repacked st' = []"
                by (auto simp: translateDocx_def Let_def initial_dstate_def)
              then show ?thesis by simp
            next
              case v: (Inr u)
              with run \<open>extracted env = Inr documentXml\<close> r False Some res tc nh rx
              have "repacked st' = [translatedXml]"
                by (auto simp: translateDocx_def Let_def initial_dstate_def repackDocx_def split: option.splits)
              with v show ?thesis by simp
            qed
          qed
        qed
      qed
    qed
  qed
qed

theorem invalid_xml_never_repacked_witness:
  \<open>\<exists>st'. translateDocx
       \<lparr>extracted = Inr ''<w:body><w:p><w:r><w:t>Hello</w:t></w:r></w:p></w:body>'',
        agents = \<lparr>backend = (\<lambda>k prompt. Reply ''<p id="0">[TAG:1]Hallo</p>''), aborted = (\<lambda>k. False)\<rparr>,
        write_error = None\<rparr>
       \<lparr>targetLanguage = ''German'', concurrencyOption = None, progressCallback = True\<rparr>
     = Some (Inl (Malformed (mismatch_message ''<w:body><w:p>Hallo</w:body>'' ''w:body'' (Some ''w:p'') 18)), st') \<and>
     repacked st' = [] \<and>
     reconstructXml ''<w:body><w:p><w:r><w:t>Hello</w:t></w:r></w:p></w:body>''
       [\<lparr>index = 0, simplifiedText = ''[TAG:1]Hallo'', hasText = True\<rparr>]
       (snd (replaceTagsWithIds (chunkParagraphs ''<w:body><w:p><w:r><w:t>Hello</w:t></w:r></w:p></w:body>'')))
     = Inr ''<w:body><w:p>Hallo</w:body>''\<close>
proof -
  let ?doc = "''<w:body><w:p><w:r><w:t>Hello</w:t></w:r></w:p></w:body>''"
  let ?w = \<open>\<lparr>backend = (\<lambda>k prompt. Reply ''<p id="0">[TAG:1]Hallo</p>''), aborted = (\<lambda>k. False)\<rparr>\<close>
  let ?env = "\<lparr>extracted = Inr ?doc, agents = ?w, write_error = None\<rparr>"
  let ?options = "\<lparr>targetLanguage = ''German'', concurrencyOption = None, progressCallback = True\<rparr>"
  let ?chunks = "fst (replaceTagsWithIds (chunkParagraphs ?doc))"
  let ?idMap = "snd (replaceTagsWithIds (chunkParagraphs ?doc))"
  let ?t = "\<lparr>index = 0, simplifiedText = ''[TAG:1]Hallo'', hasText = True\<rparr>"
  have c: "?chunks = [\<lparr>index = 0, simplifiedText = ''[TAG:1][RUN:2]Hello[/RUN:2][TAG:3]'', hasText = True\<rparr>]"
    by code_simp
  have h1: "extracted ?env = Inr ?doc" by simp
  have h2: "replaceTagsWithIds (chunkParagraphs ?doc) = (?chunks, ?idMap)" by simp
  have h3: "list_ex hasText ?chunks" unfolding c by simp
  have "\<exists>ts. translateChunksInParallel ?w ?chunks
           \<lparr>batchSize = None, concurrency = 5, onProgress = False\<rparr> = Some (Inr [Some ?t], ts)"
    unfolding c by (simp add: run_simps)
  then obtain ts where h4: "translateChunksInParallel (agents ?env) ?chunks
           \<lparr>batchSize = None,
            concurrency = (case concurrencyOption ?options of None \<Rightarrow> 5 | Some n \<Rightarrow> n),
            onProgress = False\<rparr> = Some (Inr [Some ?t], ts)"
    by auto
  have h5: "\<not> list_ex (\<lambda>chunk. chunk = None) [Some ?t]" by simp
  have rx: "reconstructXml ?doc [?t] ?idMap = Inr ''<w:body><w:p>Hallo</w:body>''"
    by code_simp
  then have h6: "reconstructXml ?doc (map the [Some ?t]) ?idMap = Inr ''<w:body><w:p>Hallo</w:body>''"
    by simp
  have h7: "validateXml ''<w:body><w:p>Hallo</w:body>''
      = Inl (Malformed (mismatch_message ''<w:body><w:p>Hallo</w:body>'' ''w:body'' (Some ''w:p'') 18))"
    by code_simp
  from invalid_xml_never_repacked [OF h1 h2 h3 h4 h5 h6 h7] obtain st' where
    td: "translateDocx ?env ?options
       = Some (Inl (Malformed (mismatch_message ''<w:body><w:p>Hallo</w:body>'' ''w:body'' (Some ''w:p'') 18)), st')"
    and rp: "repacked st' = []"
    by (elim exE conjE)
  show ?thesis
    by (rule exI [of _ st'], intro conjI) (fact td rp rx)+
qed


subsection \<open>Decimal numerals\<close>











subsection \<open>Searching a string\<close>



subsection \<open>Scanning a text without matches\<close>

lemma gmatch_skip:
  assumes "\<And>s. m s \<noteq> None \<Longrightarrow> s \<noteq> [] \<and> hd s = c"
  shows "c \<notin> set a \<Longrightarrow> gmatch m pre (a @ s) = gmatch m (pre @ a) s"
proof (induction a arbitrary: pre)
  case Nil
  show ?case by simp
next
  case (Cons x a)
  have "m (x # a @ s) = None"
  proof (rule ccontr)
    assume "m (x # a @ s) \<noteq> None"
    from assms [OF this] Cons.prems show False by simp
  qed
  with Cons show ?case by simp
qed

lemma gmatch_none:
  assumes "\<And>s. m s \<noteq> None \<Longrightarrow> s \<noteq> [] \<and> hd s = c"
  shows "c \<notin> set a \<Longrightarrow> gmatch m pre a = ([], pre @ a)"
  using gmatch_skip [of m c a pre "[]"] assms by simp





subsection \<open>Texts made of plain text and markers\<close>







subsection \<open>The two passes over a text of plain text and markers\<close>















section \<open>The round trip\<close>

subsection \<open>\<^verbatim>\<open>JSON.parse\<close> of \<^verbatim>\<open>JSON.stringify\<close>\<close>

lemma hex_cases:
  "d < (16::nat) \<Longrightarrow> d = 0 \<or> d = 1 \<or> d = 2 \<or> d = 3 \<or> d = 4 \<or> d = 5 \<or> d = 6 \<or> d = 7 \<or> d = 8 \<or>
     d = 9 \<or> d = 10 \<or> d = 11 \<or> d = 12 \<or> d = 13 \<or> d = 14 \<or> d = 15"
  by arith

lemma hex_digit_val:
  assumes "d < 16"
  shows "is_hex (hex_digit d)" and "hex_val (hex_digit d) = d"
  using hex_cases [OF assms] by (auto simp: is_hex_def hex_val_def hex_digit_def is_digit_def)

lemma parse_quoted_char:
  assumes "parse_string_body rest = Some (s, r)"
  shows "parse_string_body (quote_char c @ rest) = Some (c # s, r)"
proof -
  let ?n = "of_char c :: nat"
  consider (dq) "c = DQ" | (bs) "c = BS" | (b) "c = CHR 0x08" | (f) "c = CHR 0x0C" | (n) "c = CHR 0x0A"
    | (r) "c = CHR 0x0D" | (t) "c = CHR 0x09"
    | (ctl) "c \<noteq> DQ" "c \<noteq> BS" "c \<noteq> CHR 0x08" "c \<noteq> CHR 0x0C" "c \<noteq> CHR 0x0A" "c \<noteq> CHR 0x0D"
        "c \<noteq> CHR 0x09" "?n < 32"
    | (plain) "c \<noteq> DQ" "c \<noteq> BS" "c \<noteq> CHR 0x08" "c \<noteq> CHR 0x0C" "c \<noteq> CHR 0x0A" "c \<noteq> CHR 0x0D"
        "c \<noteq> CHR 0x09" "\<not> ?n < 32"
    by (cases "?n < 32") auto
  then show ?thesis
  proof cases
    case dq
    then show ?thesis using assms by (simp add: quote_char_def DQ_def BS_def unescape_def)
  next
    case bs
    then show ?thesis using assms by (simp add: quote_char_def DQ_def BS_def unescape_def)
  next
    case b
    then show ?thesis using assms by (simp add: quote_char_def DQ_def BS_def unescape_def)
  next
    case f
    then show ?thesis using assms by (simp add: quote_char_def DQ_def BS_def unescape_def)
  next
    case n
    then show ?thesis using assms by (simp add: quote_char_def DQ_def BS_def unescape_def)
  next
    case r
    then show ?thesis using assms by (simp add: quote_char_def DQ_def BS_def unescape_def)
  next
    case t
    then show ?thesis using assms by (simp add: quote_char_def DQ_def BS_def unescape_def)
  next
    case ctl
    have d: "?n div 16 < 16" "?n mod 16 < 16" using ctl(8) by simp_all
    let ?h = "hex_digit (?n div 16)" and ?l = "hex_digit (?n mod 16)"
    have q: "quote_char c = [BS, CHR ''u'', CHR ''0'', CHR ''0'', ?h, ?l]"
      using ctl by (simp add: quote_char_def)
    have hx: "list_all is_hex [CHR ''0'', CHR ''0'', ?h, ?l]"
      using hex_digit_val(1) [OF d(1)] hex_digit_val(1) [OF d(2)] by (simp add: is_hex_def)
    have z: "hex_val (CHR ''0'') = 0" by (simp add: hex_val_def is_digit_def)
    have "foldl (\<lambda>n h. 16 * n + hex_val h) 0 [CHR ''0'', CHR ''0'', ?h, ?l] = ?n"
      using hex_digit_val(2) [OF d(1)] hex_digit_val(2) [OF d(2)] z by simp
    then have ch: "char_of (foldl (\<lambda>n h. 16 * n + hex_val h) 0 [CHR ''0'', CHR ''0'', ?h, ?l]) = c"
      by simp
    show ?thesis
      unfolding q using assms hx ch by (simp add: BS_def DQ_def)
  next
    case plain
    then show ?thesis using assms by (simp add: quote_char_def)
  qed
qed

lemma parse_quoted_body:
  "parse_string_body (concat (map quote_char s) @ DQ # r) = Some (s, r)"
proof (induction s)
  case Nil
  show ?case by simp
next
  case (Cons c s)
  from parse_quoted_char [OF Cons, of c] show ?case by simp
qed

lemma parse_json_quote:
  "parse_string_body (tl (json_quote s) @ r) = Some (s, r)"
  using parse_quoted_body [of s r] by (simp add: json_quote_def)






subsection \<open>Filling the template\<close>


















subsection \<open>The matches of a scan\<close>





subsection \<open>Paragraphs that the round trip gives back\<close>
























text \<open>Other documents that do not come back: the text of a run is the raw XML text, and
  its entities are escaped once more when the run is restored.\<close>

lemma round_trip_escapes_entity:
  "(case replaceTagsWithIds (chunkParagraphs ''<w:p><w:r><w:t>A &amp; B</w:t></w:r></w:p>'') of
      (chunks, idMap) \<Rightarrow> reconstructXml ''<w:p><w:r><w:t>A &amp; B</w:t></w:r></w:p>'' chunks idMap)
     = Inr ''<w:p><w:r><w:t>A &amp;amp; B</w:t></w:r></w:p>''"
  by code_simp


end
